theory Spec2Isabelle
  imports Main "HOL-Library.Sublist" "HOL-Library.AList"
begin

section \<open>Common conventions\<close>

text \<open>
  The three engines of \<^verbatim>\<open>pkg/registry\<close> are embedded as pure functions over explicit
  state. A Go method with a pointer receiver takes the receiver's state and returns the
  new one. A run-time panic of the Go program is a value of the type \<open>panic\<close>, returned
  on the left of a sum. Calls to the logger only write log lines and are left out, and
  so is the \<^verbatim>\<open>context.Context\<close> argument that is only handed to the logger. The mutexes
  serialise the accesses modelled here as single steps.

  Go's \<^verbatim>\<open>int\<close> and \<^verbatim>\<open>time.Duration\<close> are 64-bit signed integers. They are modelled as
  \<open>int\<close>, and so are instants: a \<^verbatim>\<open>time.Time\<close> is the count of nanoseconds since the
  zero \<^verbatim>\<open>time.Time\<close>, which is 0 (the readings of \<^verbatim>\<open>UnixNano\<close>, counted from 1970, are
  arguments of their own). The code compares them, and
  computes with them in two places only: the increment of the two counters of a health
  record, whose wrap-around is written out in \<open>incr64\<close>, and the time since the last
  check, which \<open>Since\<close> keeps in the range of a \<^verbatim>\<open>Duration\<close>.
\<close>

datatype panic = NilPointerDereference | MakeChanSizeOutOfRange

definition maxInt64 :: int where
  "maxInt64 = 9223372036854775807"

definition minInt64 :: int where
  "minInt64 = - 9223372036854775808"

text \<open>\<^verbatim>\<open>x++\<close> on a Go \<^verbatim>\<open>int\<close>: the successor, wrapping at the largest value.\<close>

definition incr64 :: "int \<Rightarrow> int" where
  "incr64 x = (if x = maxInt64 then minInt64 else x + 1)"

section \<open>Tag protection (\<^verbatim>\<open>tag_protection.go\<close>)\<close>

text \<open>
  A compiled \<^verbatim>\<open>*regexp.Regexp\<close> is represented by what \<^verbatim>\<open>MatchString\<close> answers on each
  string; the pointer may be nil, which is \<open>None\<close>.
\<close>

type_synonym Regexp = "string \<Rightarrow> bool"

record ProtectionPolicy =
  Name :: string
  Pattern :: "Regexp option"
  Immutable :: bool
  MaxAge :: int
  AllowDelete :: bool
  Priority :: int

record TagProtection =
  policies :: "ProtectionPolicy list"

definition NewTagProtection :: TagProtection where
  "NewTagProtection = \<lparr>policies = []\<rparr>"

text \<open>\<^verbatim>\<open>policy.Pattern.MatchString(tagRef)\<close>: a nil pattern panics.\<close>

fun MatchString :: "Regexp option \<Rightarrow> string \<Rightarrow> panic + bool" where
  "MatchString None s = Inl NilPointerDereference"
| "MatchString (Some re) s = Inr (re s)"

text \<open>
  \<^verbatim>\<open>AddPolicy\<close> returns the new state and the error (\<open>None\<close> is Go's nil error, otherwise
  the message). Its argument is a pointer to a policy; the model takes the policy it
  points to.
\<close>

definition AddPolicy :: "TagProtection \<Rightarrow> ProtectionPolicy \<Rightarrow> TagProtection \<times> string option" where
  "AddPolicy tp policy =
     (if Pattern policy = None then (tp, Some ''policy pattern cannot be nil'')
      else (tp\<lparr>policies := policies tp @ [policy]\<rparr>, None))"

text \<open>\<^verbatim>\<open>fmt.Sprintf("%s:%s", repository, tag)\<close>\<close>

definition tagRef_of :: "string \<Rightarrow> string \<Rightarrow> string" where
  "tagRef_of repository tag = repository @ '':'' @ tag"

text \<open>
  The scan of \<^verbatim>\<open>CanModify\<close> (lines 64 to 71), with the variable \<^verbatim>\<open>matchedPolicy\<close> as
  an accumulator.
\<close>

fun findMatched :: "ProtectionPolicy list \<Rightarrow> string \<Rightarrow> ProtectionPolicy option
    \<Rightarrow> panic + ProtectionPolicy option" where
  "findMatched [] tagRef matchedPolicy = Inr matchedPolicy"
| "findMatched (policy # rest) tagRef matchedPolicy =
     (case MatchString (Pattern policy) tagRef of
        Inl e \<Rightarrow> Inl e
      | Inr matched \<Rightarrow>
          if matched then
            (case matchedPolicy of
               None \<Rightarrow> findMatched rest tagRef (Some policy)
             | Some m \<Rightarrow>
                 if Priority policy > Priority m then findMatched rest tagRef (Some policy)
                 else findMatched rest tagRef matchedPolicy)
          else findMatched rest tagRef matchedPolicy)"

text \<open>
  The decision on the selected policy (lines 73 to 97). \<open>durString\<close> stands for
  \<^verbatim>\<open>time.Duration.String\<close> of the Go standard library, which formats \<^verbatim>\<open>MaxAge\<close> in the
  second reason.
\<close>

definition decide :: "(int \<Rightarrow> string) \<Rightarrow> ProtectionPolicy option \<Rightarrow> int \<Rightarrow> bool \<times> string" where
  "decide durString matchedPolicy age =
     (case matchedPolicy of
        None \<Rightarrow> (True, '''')
      | Some m \<Rightarrow>
          if Immutable m then (False, ''tag is immutable (policy: '' @ Name m @ '')'')
          else if MaxAge m > 0 \<and> age < MaxAge m then
            (False, ''tag protected for '' @ durString (MaxAge m) @ '' (policy: '' @ Name m @ '')'')
          else (True, ''''))"

definition CanModify :: "(int \<Rightarrow> string) \<Rightarrow> TagProtection \<Rightarrow> string \<Rightarrow> string \<Rightarrow> int
    \<Rightarrow> panic + (bool \<times> string)" where
  "CanModify durString tp repository tag age =
     (case findMatched (policies tp) (tagRef_of repository tag) None of
        Inl e \<Rightarrow> Inl e
      | Inr matchedPolicy \<Rightarrow> Inr (decide durString matchedPolicy age))"

text \<open>The loop of \<^verbatim>\<open>CanDelete\<close>: the first veto returns at once.\<close>

fun deleteScan :: "ProtectionPolicy list \<Rightarrow> string \<Rightarrow> panic + (bool \<times> string)" where
  "deleteScan [] tagRef = Inr (True, '''')"
| "deleteScan (policy # rest) tagRef =
     (case MatchString (Pattern policy) tagRef of
        Inl e \<Rightarrow> Inl e
      | Inr matched \<Rightarrow>
          if matched \<and> \<not> AllowDelete policy then
            Inr (False, ''tag deletion not allowed (policy: '' @ Name policy @ '')'')
          else deleteScan rest tagRef)"

definition CanDelete :: "TagProtection \<Rightarrow> string \<Rightarrow> string \<Rightarrow> panic + (bool \<times> string)" where
  "CanDelete tp repository tag = deleteScan (policies tp) (tagRef_of repository tag)"

text \<open>\<^verbatim>\<open>RemovePolicy\<close> deletes the first policy of that name.\<close>

fun removeFirst :: "string \<Rightarrow> ProtectionPolicy list \<Rightarrow> ProtectionPolicy list \<times> bool" where
  "removeFirst name [] = ([], False)"
| "removeFirst name (policy # rest) =
     (if Name policy = name then (rest, True)
      else (case removeFirst name rest of (rest', removed) \<Rightarrow> (policy # rest', removed)))"

definition RemovePolicy :: "TagProtection \<Rightarrow> string \<Rightarrow> TagProtection \<times> bool" where
  "RemovePolicy tp name =
     (case removeFirst name (policies tp) of
        (ps, removed) \<Rightarrow> (if removed then tp\<lparr>policies := ps\<rparr> else tp, removed))"

text \<open>
  The patterns of the collection are never nil: \<^verbatim>\<open>AddPolicy\<close> is the only way in, and
  it refuses a nil pattern. \<open>matchesRef\<close> is the answer of a policy's pattern then.
\<close>

definition patternsSet :: "ProtectionPolicy list \<Rightarrow> bool" where
  "patternsSet ps = list_all (\<lambda>p. Pattern p \<noteq> None) ps"

definition matchesRef :: "ProtectionPolicy \<Rightarrow> string \<Rightarrow> bool" where
  "matchesRef p tagRef = (case Pattern p of None \<Rightarrow> False | Some re \<Rightarrow> re tagRef)"

text \<open>
  The two ways the scan of \<^verbatim>\<open>CanModify\<close> can end, given the value \<open>acc\<close> that
  \<^verbatim>\<open>matchedPolicy\<close> has on entry: it keeps that value, no matching policy of the list
  having a greater priority; or it picks a policy of the list, the first of those of
  greatest priority among the matching ones.
\<close>

definition keeps :: "ProtectionPolicy list \<Rightarrow> string \<Rightarrow> ProtectionPolicy option \<Rightarrow> bool" where
  "keeps ps tagRef acc =
     (findMatched ps tagRef acc = Inr acc \<and>
      (\<forall>p \<in> set ps. matchesRef p tagRef \<longrightarrow> (\<exists>m. acc = Some m \<and> Priority p \<le> Priority m)))"

definition picks :: "ProtectionPolicy list \<Rightarrow> string \<Rightarrow> ProtectionPolicy option \<Rightarrow> bool" where
  "picks ps tagRef acc =
     (\<exists>pre P post. ps = pre @ P # post \<and> matchesRef P tagRef \<and>
        findMatched ps tagRef acc = Inr (Some P) \<and>
        (\<forall>p \<in> set pre. matchesRef p tagRef \<longrightarrow> Priority p < Priority P) \<and>
        (\<forall>p \<in> set post. matchesRef p tagRef \<longrightarrow> Priority p \<le> Priority P) \<and>
        (\<forall>m. acc = Some m \<longrightarrow> Priority m < Priority P))"

section \<open>Batch operations (\<^verbatim>\<open>batch_operations.go\<close>)\<close>

datatype BatchOpType = BatchOpDelete | BatchOpTag | BatchOpConvert | BatchOpCopy

datatype BatchOpStatus = BatchOpPending | BatchOpRunning | BatchOpCompleted | BatchOpFailed

text \<open>
  The fields \<^verbatim>\<open>Error\<close> of a result and \<^verbatim>\<open>Status\<close> of an operation carry a suffix: the
  health record below has fields of the same names. Instants are nanosecond counts, the
  zero \<^verbatim>\<open>time.Time\<close> being 0.
\<close>

record BatchOpResult =
  Target :: string
  Success :: bool
  Error_res :: string
  Elapsed :: int

record BatchOperation =
  ID :: string
  Type :: BatchOpType
  Targets :: "string list"
  Status_op :: BatchOpStatus
  Results :: "BatchOpResult list"
  CreatedAt :: int
  StartedAt :: int
  EndedAt :: int

text \<open>
  The executor holds pointers to operation records, and \<^verbatim>\<open>executeBatch\<close> writes through
  the pointer it was started with. So the records live in a heap, a list indexed by
  address, where an allocation appends; the Go map from ids to pointers is an association
  list from ids to addresses.
\<close>

record BatchOperator =
  heap :: "BatchOperation list"
  operations :: "(string \<times> nat) list"
  workers :: int

definition NewBatchOperator :: "int \<Rightarrow> BatchOperator" where
  "NewBatchOperator n = \<lparr>heap = [], operations = [], workers = n\<rparr>"

text \<open>\<^verbatim>\<open>fmt.Sprintf("%d", n)\<close>: the decimal digits, after a minus sign when negative.\<close>

fun digits :: "nat \<Rightarrow> string" where
  "digits n =
     (if n < 10 then [''0123456789'' ! n]
      else digits (n div 10) @ [''0123456789'' ! (n mod 10)])"

definition fmt_d :: "int \<Rightarrow> string" where
  "fmt_d i = (if i < 0 then CHR ''-'' # digits (nat (- i)) else digits (nat i))"

text \<open>The number that a string of decimal digits denotes.\<close>

definition decimalValue :: "string \<Rightarrow> nat" where
  "decimalValue cs = foldl (\<lambda>a c. 10 * a + (of_char c - 48)) 0 cs"

text \<open>\<^verbatim>\<open>generateID\<close>; the argument is what \<^verbatim>\<open>time.Now().UnixNano()\<close> returns.\<close>

definition generateID :: "int \<Rightarrow> string" where
  "generateID unixNano = ''batch-'' @ fmt_d unixNano"

text \<open>
  The part that \<^verbatim>\<open>DeleteTags\<close>, \<^verbatim>\<open>CopyTags\<close> and \<^verbatim>\<open>RetagBatch\<close> share: build the record,
  store its pointer under its id, return the pointer. \<open>unixNano\<close> and \<open>now\<close> are the two
  readings of the clock. The goroutine they start is \<open>executeBatch\<close> below.
\<close>

definition submit :: "BatchOperator \<Rightarrow> BatchOpType \<Rightarrow> int \<Rightarrow> int \<Rightarrow> string list
    \<Rightarrow> BatchOperator \<times> nat" where
  "submit bo ty unixNano now targets =
     (let op = \<lparr>ID = generateID unixNano, Type = ty, Targets = targets,
                Status_op = BatchOpPending, Results = [], CreatedAt = now,
                StartedAt = 0, EndedAt = 0\<rparr>;
          a = length (heap bo)
      in (bo\<lparr>heap := heap bo @ [op], operations := AList.update (ID op) a (operations bo)\<rparr>, a))"

definition DeleteTags :: "BatchOperator \<Rightarrow> int \<Rightarrow> int \<Rightarrow> string list \<Rightarrow> BatchOperator \<times> nat" where
  "DeleteTags bo unixNano now tags = submit bo BatchOpDelete unixNano now tags"

definition CopyTags :: "BatchOperator \<Rightarrow> int \<Rightarrow> int \<Rightarrow> string list \<Rightarrow> string
    \<Rightarrow> BatchOperator \<times> nat" where
  "CopyTags bo unixNano now sources destPrefix = submit bo BatchOpCopy unixNano now sources"

text \<open>
  \<^verbatim>\<open>RetagBatch\<close> takes its targets from the keys of a Go map; \<open>mappings\<close> lists the
  entries of the map in the order in which the \<^verbatim>\<open>range\<close> loop meets them.
\<close>

definition RetagBatch :: "BatchOperator \<Rightarrow> int \<Rightarrow> int \<Rightarrow> (string \<times> string) list
    \<Rightarrow> BatchOperator \<times> nat" where
  "RetagBatch bo unixNano now mappings = submit bo BatchOpTag unixNano now (map fst mappings)"

text \<open>
  \<^verbatim>\<open>GetOperation\<close> returns the pointer stored under the id, \<^verbatim>\<open>ListOperations\<close> every
  stored pointer. Go leaves the order of the latter open; the model lists them in the
  order of the association list.
\<close>

definition GetOperation :: "BatchOperator \<Rightarrow> string \<Rightarrow> nat option" where
  "GetOperation bo opID = map_of (operations bo) opID"

definition ListOperations :: "BatchOperator \<Rightarrow> nat list" where
  "ListOperations bo = map snd (operations bo)"

text \<open>
  A handler is a Go closure, which need not answer alike on two calls with one target:
  \<open>handler idx tgt\<close> is the error of the call made by the task of index \<open>idx\<close>
  (\<open>None\<close> is nil, otherwise the message), and \<open>elapsed idx\<close> the time it measured.
  The handlers of \<^verbatim>\<open>DeleteTags\<close>, \<^verbatim>\<open>CopyTags\<close> and \<^verbatim>\<open>RetagBatch\<close> always return nil.
\<close>

type_synonym Handler = "nat \<Rightarrow> string \<Rightarrow> string option"

definition simulatedHandler :: Handler where
  "simulatedHandler idx tgt = None"

text \<open>The body of one task (lines 206 to 217): it writes the slot of its own index.\<close>

definition runTask :: "Handler \<Rightarrow> (nat \<Rightarrow> int) \<Rightarrow> BatchOpResult list \<Rightarrow> nat \<Rightarrow> string
    \<Rightarrow> BatchOpResult list" where
  "runTask handler elapsed results idx tgt =
     (let err = handler idx tgt;
          results1 = results[idx := \<lparr>Target = tgt, Success = (err = None),
                                      Error_res = [], Elapsed = elapsed idx\<rparr>]
      in case err of
           None \<Rightarrow> results1
         | Some e \<Rightarrow> results1[idx := (results1 ! idx)\<lparr>Error_res := e\<rparr>])"

text \<open>
  The tasks finish in an order the scheduler chooses: \<open>order\<close> lists the task indices
  in the order of their writes. Every index is that of a target, so no write is out of
  range.
\<close>

fun runTasks :: "Handler \<Rightarrow> (nat \<Rightarrow> int) \<Rightarrow> string list \<Rightarrow> nat list \<Rightarrow> BatchOpResult list
    \<Rightarrow> BatchOpResult list" where
  "runTasks handler elapsed targets [] results = results"
| "runTasks handler elapsed targets (idx # order) results =
     runTasks handler elapsed targets order
       (runTask handler elapsed results idx (targets ! idx))"

text \<open>The final loop (lines 227 to 235): failed at the first result without success.\<close>

fun finalStatus :: "BatchOpResult list \<Rightarrow> BatchOpStatus" where
  "finalStatus [] = BatchOpCompleted"
| "finalStatus (result # rest) =
     (if \<not> Success result then BatchOpFailed else finalStatus rest)"

text \<open>
  What the scheduler and the clock contribute to one execution, and how it ends. A
  negative capacity makes \<^verbatim>\<open>make(chan struct{}, bo.workers)\<close> panic. With capacity 0
  no task ever passes \<^verbatim>\<open>semaphore <- struct{}{}\<close>, nobody receiving, so with a target
  \<^verbatim>\<open>wg.Wait()\<close> never returns and the operation stays running. Otherwise every task
  runs, handlers being taken to return. The operation is given by its address; an
  address that was never allocated stands for a nil pointer.
\<close>

record BatchEnv =
  startClock :: int
  elapsedOf :: "nat \<Rightarrow> int"
  finishOrder :: "nat list"
  endClock :: int

datatype BatchRun = Crashed panic | Stuck BatchOperator | Finished BatchOperator

definition zeroResult :: BatchOpResult where
  "zeroResult = \<lparr>Target = [], Success = False, Error_res = [], Elapsed = 0\<rparr>"

definition executeBatch :: "BatchOperator \<Rightarrow> nat \<Rightarrow> Handler \<Rightarrow> BatchEnv \<Rightarrow> BatchRun" where
  "executeBatch bo a handler env =
     (if length (heap bo) \<le> a then Crashed NilPointerDereference
      else
        let op1 = (heap bo ! a)\<lparr>Status_op := BatchOpRunning, StartedAt := startClock env\<rparr>
        in if workers bo < 0 then Crashed MakeChanSizeOutOfRange
           else if workers bo = 0 \<and> Targets op1 \<noteq> [] then Stuck (bo\<lparr>heap := (heap bo)[a := op1]\<rparr>)
           else
             let results = runTasks handler (elapsedOf env) (Targets op1) (finishOrder env)
                             (replicate (length (Targets op1)) zeroResult);
                 op2 = op1\<lparr>Results := results, EndedAt := endClock env,
                           Status_op := finalStatus results\<rparr>
             in Finished (bo\<lparr>heap := (heap bo)[a := op2]\<rparr>))"

text \<open>Each of the tasks runs once: the order of completion is a permutation of the indices.\<close>

definition everyTaskOnce :: "nat list \<Rightarrow> nat \<Rightarrow> bool" where
  "everyTaskOnce order n = (distinct order \<and> set order = {..<n})"

text \<open>
  What the task of index \<open>i\<close> leaves in its slot, and the record of an operation once
  every task has written and the final loop has run.
\<close>

definition taskResult :: "Handler \<Rightarrow> (nat \<Rightarrow> int) \<Rightarrow> string list \<Rightarrow> nat \<Rightarrow> BatchOpResult" where
  "taskResult handler elapsed targets i =
     \<lparr>Target = targets ! i, Success = (handler i (targets ! i) = None),
      Error_res = (case handler i (targets ! i) of None \<Rightarrow> [] | Some e \<Rightarrow> e),
      Elapsed = elapsed i\<rparr>"

definition finishedOp :: "BatchOperation \<Rightarrow> Handler \<Rightarrow> BatchEnv \<Rightarrow> BatchOperation" where
  "finishedOp op handler env =
     op\<lparr>Status_op := finalStatus (map (taskResult handler (elapsedOf env) (Targets op))
                                    [0..<length (Targets op)]),
        StartedAt := startClock env,
        Results := map (taskResult handler (elapsedOf env) (Targets op)) [0..<length (Targets op)],
        EndedAt := endClock env\<rparr>"

section \<open>Health monitor (circuit breaker)\<close>

datatype HealthStatus =
  HealthStatusHealthy | HealthStatusDegraded | HealthStatusUnhealthy | HealthStatusUnknown

datatype CircuitState = CircuitClosed | CircuitHalfOpen | CircuitOpen

record HealthCheck =
  Endpoint :: string
  Status :: HealthStatus
  Circuit :: CircuitState
  Latency :: int
  Error :: string
  LastCheck :: int
  Consecutive :: int
  Attempts :: int

record HealthMonitor =
  checks :: "string \<rightharpoonup> HealthCheck"
  threshold :: int
  retryDelay :: int
  timeout :: int
  checkInterval :: int

definition NewHealthMonitor :: "int \<Rightarrow> int \<Rightarrow> int \<Rightarrow> int \<Rightarrow> HealthMonitor" where
  "NewHealthMonitor th rd tmo ci =
     \<lparr>checks = Map.empty, threshold = th, retryDelay = rd, timeout = tmo, checkInterval = ci\<rparr>"

definition freshCheck :: "string \<Rightarrow> HealthCheck" where
  "freshCheck endpoint =
     \<lparr>Endpoint = endpoint, Status = HealthStatusUnknown, Circuit = CircuitClosed,
      Latency = 0, Error = [], LastCheck = 0, Consecutive = 0, Attempts = 0\<rparr>"

definition Register :: "HealthMonitor \<Rightarrow> string \<Rightarrow> HealthMonitor" where
  "Register hm endpoint =
     (case checks hm endpoint of
        Some existing \<Rightarrow> hm
      | None \<Rightarrow> hm\<lparr>checks := (checks hm)(endpoint \<mapsto> freshCheck endpoint)\<rparr>)"

definition GetStatus :: "HealthMonitor \<Rightarrow> string \<Rightarrow> HealthCheck option" where
  "GetStatus hm endpoint = checks hm endpoint"

text \<open>
  \<^verbatim>\<open>time.Since(t)\<close> at the instant \<open>now\<close>: the difference, kept within the range of a
  \<^verbatim>\<open>Duration\<close> as \<^verbatim>\<open>Time.Sub\<close> does.
\<close>

definition Since :: "int \<Rightarrow> int \<Rightarrow> int" where
  "Since now t =
     (if now - t > maxInt64 then maxInt64
      else if now - t < minInt64 then minInt64
      else now - t)"

text \<open>
  \<^verbatim>\<open>checkEndpoint\<close>: \<open>ctxDone\<close> says that the context ended before the 50 ms timer
  fired, \<open>unixNano\<close> is the clock read after it fired.
\<close>

definition checkEndpoint :: "bool \<Rightarrow> int \<Rightarrow> string option" where
  "checkEndpoint ctxDone unixNano =
     (if ctxDone then Some ''health check timeout''
      else if unixNano mod 10 = 0 then Some ''simulated failure''
      else None)"

text \<open>Reading \<^verbatim>\<open>hm.checks[endpoint]\<close> of an absent endpoint gives nil, and the write panics.\<close>

definition updateCircuit :: "HealthMonitor \<Rightarrow> string \<Rightarrow> CircuitState \<Rightarrow> panic + HealthMonitor" where
  "updateCircuit hm endpoint state =
     (case checks hm endpoint of
        None \<Rightarrow> Inl NilPointerDereference
      | Some check \<Rightarrow> Inr (hm\<lparr>checks := (checks hm)(endpoint \<mapsto> check\<lparr>Circuit := state\<rparr>)\<rparr>))"

definition updateHealth :: "HealthMonitor \<Rightarrow> string \<Rightarrow> string option \<Rightarrow> int \<Rightarrow> int
    \<Rightarrow> panic + HealthMonitor" where
  "updateHealth hm endpoint err latency now =
     (case checks hm endpoint of
        None \<Rightarrow> Inl NilPointerDereference
      | Some check \<Rightarrow>
          let check1 = check\<lparr>LastCheck := now, Latency := latency,
                             Attempts := incr64 (Attempts check)\<rparr>;
              check2 =
                (case err of
                   Some e \<Rightarrow>
                     let c = check1\<lparr>Error := e, Consecutive := incr64 (Consecutive check1)\<rparr>
                     in if Consecutive c \<ge> threshold hm then
                          c\<lparr>Status := HealthStatusUnhealthy, Circuit := CircuitOpen\<rparr>
                        else if Consecutive c > 0 then c\<lparr>Status := HealthStatusDegraded\<rparr>
                        else c
                 | None \<Rightarrow>
                     let c = check1\<lparr>Error := [], Consecutive := 0,
                                     Status := HealthStatusHealthy\<rparr>
                     in if Circuit c \<noteq> CircuitClosed then c\<lparr>Circuit := CircuitClosed\<rparr> else c)
          in Inr (hm\<lparr>checks := (checks hm)(endpoint \<mapsto> check2)\<rparr>))"

text \<open>
  What the clock and the endpoint contribute to one tick: the instant of the retry
  gate, the two inputs of \<^verbatim>\<open>checkEndpoint\<close>, the latency measured around it, and the
  instant \<^verbatim>\<open>updateHealth\<close> stamps. The two instants count from the zero \<^verbatim>\<open>time.Time\<close>,
  as \<open>LastCheck\<close> does, which is 0 in a record that was never checked.
\<close>

record Tick =
  gateClock :: int
  ctxDone :: bool
  probeNano :: int
  probeLatency :: int
  stampClock :: int

definition probe :: "Tick \<Rightarrow> string option" where
  "probe tk = checkEndpoint (ctxDone tk) (probeNano tk)"

definition performCheck :: "HealthMonitor \<Rightarrow> string \<Rightarrow> Tick \<Rightarrow> panic + HealthMonitor" where
  "performCheck hm endpoint tk =
     (case checks hm endpoint of
        None \<Rightarrow> Inl NilPointerDereference
      | Some check \<Rightarrow>
          if Circuit check = CircuitOpen then
            if Since (gateClock tk) (LastCheck check) < retryDelay hm then Inr hm
            else
              (case updateCircuit hm endpoint CircuitHalfOpen of
                 Inl e \<Rightarrow> Inl e
               | Inr hm1 \<Rightarrow> updateHealth hm1 endpoint (probe tk) (probeLatency tk) (stampClock tk))
          else updateHealth hm endpoint (probe tk) (probeLatency tk) (stampClock tk))"

text \<open>
  A history of a monitor: registrations, and ticks of the tasks that \<^verbatim>\<open>monitorEndpoint\<close>
  runs. \<^verbatim>\<open>Start\<close> gives every endpoint one task, which runs its ticks one after the
  other. Ticks of different endpoints write different records and a registration only
  adds a record, so every interleaving of their steps has the effect of a sequence of
  whole events.
\<close>

datatype Event = Registered string | Ticked string Tick

fun history :: "HealthMonitor \<Rightarrow> Event list \<Rightarrow> panic + HealthMonitor" where
  "history hm [] = Inr hm"
| "history hm (Registered endpoint # evs) = history (Register hm endpoint) evs"
| "history hm (Ticked endpoint tk # evs) =
     (case performCheck hm endpoint tk of
        Inl e \<Rightarrow> Inl e
      | Inr hm' \<Rightarrow> history hm' evs)"


section \<open>Example inputs\<close>

text \<open>
  Example policies, in the manner of the repository's tests. A pattern is given by the
  strings it matches: \<^verbatim>\<open>.*:.*\<close> matches the strings that contain a colon,
  \<^verbatim>\<open>^production/\<close> those that start with \<^verbatim>\<open>production/\<close>. The policy \<open>blockProd\<close> is not
  the \<^verbatim>\<open>block-prod\<close> of the tests: its pattern is the anchored one, where the test
  compiles \<^verbatim>\<open>production/.*:.*\<close>, and it allows deletion, where the test leaves
  \<^verbatim>\<open>AllowDelete\<close> false. \<open>weekString\<close> is \<^verbatim>\<open>Duration.String\<close> on seven days.
\<close>

definition colonPattern :: Regexp where
  "colonPattern s = (CHR '':'' \<in> set s)"

definition productionPattern :: Regexp where
  "productionPattern s = prefix ''production/'' s"

definition allowAll :: ProtectionPolicy where
  "allowAll = \<lparr>Name = ''allow-all'', Pattern = Some colonPattern, Immutable = False,
               MaxAge = 0, AllowDelete = False, Priority = 1\<rparr>"

definition blockProd :: ProtectionPolicy where
  "blockProd = \<lparr>Name = ''block-prod'', Pattern = Some productionPattern, Immutable = True,
                MaxAge = 0, AllowDelete = True, Priority = 10\<rparr>"

definition recentProtection :: ProtectionPolicy where
  "recentProtection = \<lparr>Name = ''recent-protection'', Pattern = Some colonPattern,
                       Immutable = False, MaxAge = 604800000000000, AllowDelete = False,
                       Priority = 5\<rparr>"

definition noPattern :: ProtectionPolicy where
  "noPattern = \<lparr>Name = ''broken'', Pattern = None, Immutable = True,
                MaxAge = 0, AllowDelete = False, Priority = 3\<rparr>"

definition weekString :: "int \<Rightarrow> string" where
  "weekString d = ''168h0m0s''"

definition freezeAll :: ProtectionPolicy where
  "freezeAll = \<lparr>Name = ''freeze-all'', Pattern = Some colonPattern, Immutable = True,
                MaxAge = 0, AllowDelete = True, Priority = 5\<rparr>"

text \<open>
  A batch of three tags submitted to an executor of five workers, a handler that fails
  on the second task only, and an execution in which the last task finishes first.
\<close>

definition failSecond :: Handler where
  "failSecond idx tgt = (if idx = 1 then Some ''registry unavailable'' else None)"

definition threeTags :: "string list" where
  "threeTags = [''library/nginx:old-1'', ''library/nginx:old-2'', ''library/redis:deprecated'']"

definition lastFirst :: BatchEnv where
  "lastFirst = \<lparr>startClock = 10, elapsedOf = (\<lambda>i. 100000000), finishOrder = [2, 0, 1],
                endClock = 20\<rparr>"

definition submitted :: BatchOperator where
  "submitted = fst (DeleteTags (NewBatchOperator 5) 1700000000000000000 5 threeTags)"

text \<open>
  A monitor that opens after two failures and retries after three seconds; a tick
  whose probe fails and one whose probe succeeds; the monitor after one failure and
  after two.
\<close>

definition registry :: string where
  "registry = ''https://registry.example.com''"

definition failTick :: "int \<Rightarrow> Tick" where
  "failTick t = \<lparr>gateClock = t, ctxDone = False, probeNano = 1700000000000000000,
                 probeLatency = 50000000, stampClock = t\<rparr>"

definition okTick :: "int \<Rightarrow> Tick" where
  "okTick t = \<lparr>gateClock = t, ctxDone = False, probeNano = 1700000000000000007,
               probeLatency = 50000000, stampClock = t\<rparr>"

definition twoStrikes :: HealthMonitor where
  "twoStrikes = NewHealthMonitor 2 3000000000 1000000000 100000000"

definition degraded :: HealthMonitor where
  "degraded =
     \<lparr>checks = [registry \<mapsto>
        \<lparr>Endpoint = registry, Status = HealthStatusDegraded, Circuit = CircuitClosed,
         Latency = 50000000, Error = ''simulated failure'', LastCheck = 100000000,
         Consecutive = 1, Attempts = 1\<rparr>],
      threshold = 2, retryDelay = 3000000000, timeout = 1000000000,
      checkInterval = 100000000\<rparr>"

definition tripped :: HealthMonitor where
  "tripped =
     \<lparr>checks = [registry \<mapsto>
        \<lparr>Endpoint = registry, Status = HealthStatusUnhealthy, Circuit = CircuitOpen,
         Latency = 50000000, Error = ''simulated failure'', LastCheck = 200000000,
         Consecutive = 2, Attempts = 2\<rparr>],
      threshold = 2, retryDelay = 3000000000, timeout = 1000000000,
      checkInterval = 100000000\<rparr>"



lemmas example_policies =
  colonPattern_def productionPattern_def allowAll_def blockProd_def recentProtection_def
  noPattern_def freezeAll_def

section \<open>Properties of tag protection\<close>

subsection \<open>The collection keeps its patterns set\<close>

lemma patternsSet_New: "patternsSet (policies NewTagProtection)"
  by (simp add: patternsSet_def NewTagProtection_def)

lemma patternsSet_AddPolicy:
  "patternsSet (policies tp) \<Longrightarrow> patternsSet (policies (fst (AddPolicy tp policy)))"
  by (simp add: patternsSet_def AddPolicy_def)

lemma patternsSet_removeFirst:
  "patternsSet ps \<Longrightarrow> patternsSet (fst (removeFirst name ps))"
  by (induction ps) (auto simp: patternsSet_def split: prod.splits)

lemma patternsSet_RemovePolicy:
  "patternsSet (policies tp) \<Longrightarrow> patternsSet (policies (fst (RemovePolicy tp name)))"
  using patternsSet_removeFirst [of "policies tp" name]
  by (auto simp: RemovePolicy_def split: prod.splits)

lemma MatchString_set:
  "Pattern p \<noteq> None \<Longrightarrow> MatchString (Pattern p) tagRef = Inr (matchesRef p tagRef)"
  by (cases "Pattern p") (simp_all add: matchesRef_def)

subsection \<open>The scan of \<^verbatim>\<open>CanModify\<close>\<close>

lemma patternsSet_Cons:
  "patternsSet (p # ps) = (Pattern p \<noteq> None \<and> patternsSet ps)"
  by (simp add: patternsSet_def)

lemma patternsSet_append:
  "patternsSet (ps @ qs) = (patternsSet ps \<and> patternsSet qs)"
  by (simp add: patternsSet_def)

lemma findMatched_step:
  "Pattern x \<noteq> None \<Longrightarrow>
   findMatched (x # xs) tagRef acc =
     (if matchesRef x tagRef \<and> (\<forall>m. acc = Some m \<longrightarrow> Priority m < Priority x)
      then findMatched xs tagRef (Some x) else findMatched xs tagRef acc)"
  by (cases acc) (auto simp: MatchString_set)

lemma findMatched_take:
  "Pattern x \<noteq> None \<Longrightarrow> matchesRef x tagRef \<Longrightarrow>
   \<forall>m. acc = Some m \<longrightarrow> Priority m < Priority x \<Longrightarrow>
   findMatched (x # xs) tagRef acc = findMatched xs tagRef (Some x)"
  using findMatched_step [of x xs tagRef acc] by (simp del: findMatched.simps)

lemma findMatched_skip:
  "Pattern x \<noteq> None \<Longrightarrow>
   \<not> (matchesRef x tagRef \<and> (\<forall>m. acc = Some m \<longrightarrow> Priority m < Priority x)) \<Longrightarrow>
   findMatched (x # xs) tagRef acc = findMatched xs tagRef acc"
  using findMatched_step [of x xs tagRef acc] by (auto simp del: findMatched.simps)

lemma picks_here:
  assumes "findMatched (x # xs) tagRef acc = findMatched xs tagRef (Some x)"
    and "matchesRef x tagRef" "\<forall>m. acc = Some m \<longrightarrow> Priority m < Priority x"
    and "keeps xs tagRef (Some x)"
  shows "picks (x # xs) tagRef acc"
  unfolding picks_def
  apply (rule exI [of _ "[]"], rule exI [of _ x], rule exI [of _ xs])
  using assms by (simp add: keeps_def del: findMatched.simps)

lemma picks_later:
  assumes "picks xs tagRef acc'"
    and "findMatched (x # xs) tagRef acc = findMatched xs tagRef acc'"
    and "matchesRef x tagRef \<longrightarrow> (\<exists>m. acc' = Some m \<and> Priority x \<le> Priority m)"
    and "\<forall>m. acc = Some m \<longrightarrow> (\<exists>m'. acc' = Some m' \<and> Priority m \<le> Priority m')"
  shows "picks (x # xs) tagRef acc"
proof -
  from assms(1) obtain pre P post where h: "xs = pre @ P # post" "matchesRef P tagRef"
    "findMatched xs tagRef acc' = Inr (Some P)"
    "\<forall>p \<in> set pre. matchesRef p tagRef \<longrightarrow> Priority p < Priority P"
    "\<forall>p \<in> set post. matchesRef p tagRef \<longrightarrow> Priority p \<le> Priority P"
    "\<forall>m. acc' = Some m \<longrightarrow> Priority m < Priority P"
    unfolding picks_def by blast
  have a: "x # xs = (x # pre) @ P # post" using h(1) by simp
  have b: "findMatched (x # xs) tagRef acc = Inr (Some P)" using assms(2) h(3) by simp
  have c: "\<forall>p \<in> set (x # pre). matchesRef p tagRef \<longrightarrow> Priority p < Priority P"
    using h(4,6) assms(3) by auto
  have d: "\<forall>m. acc = Some m \<longrightarrow> Priority m < Priority P"
    using h(6) assms(4) by fastforce
  show ?thesis
    unfolding picks_def using a b c d h(2,5) by blast
qed

lemma findMatched_cases:
  "patternsSet ps \<Longrightarrow> keeps ps tagRef acc \<or> picks ps tagRef acc"
proof (induction ps arbitrary: acc)
  case Nil
  then show ?case by (simp add: keeps_def)
next
  case (Cons x xs)
  then have px: "Pattern x \<noteq> None" and pxs: "patternsSet xs"
    by (simp_all add: patternsSet_Cons)
  show ?case
  proof (cases "matchesRef x tagRef \<and> (\<forall>m. acc = Some m \<longrightarrow> Priority m < Priority x)")
    case True
    then have eq: "findMatched (x # xs) tagRef acc = findMatched xs tagRef (Some x)"
      using px by (intro findMatched_take) auto
    from Cons.IH [OF pxs, of "Some x"] show ?thesis
    proof
      assume "keeps xs tagRef (Some x)"
      with eq True show ?thesis by (simp add: picks_here del: findMatched.simps)
    next
      assume "picks xs tagRef (Some x)"
      then have "picks (x # xs) tagRef acc"
        using eq True by (intro picks_later [where acc' = "Some x"]) auto
      then show ?thesis ..
    qed
  next
    case False
    then have eq: "findMatched (x # xs) tagRef acc = findMatched xs tagRef acc"
      using px by (intro findMatched_skip) auto
    have low: "matchesRef x tagRef \<longrightarrow> (\<exists>m. acc = Some m \<and> Priority x \<le> Priority m)"
      using False by (metis not_le_imp_less)
    from Cons.IH [OF pxs, of acc] show ?thesis
    proof
      assume k: "keeps xs tagRef acc"
      have "keeps (x # xs) tagRef acc"
        using k eq low unfolding keeps_def by (simp del: findMatched.simps)
      then show ?thesis ..
    next
      assume "picks xs tagRef acc"
      then have "picks (x # xs) tagRef acc"
        using eq low by (intro picks_later [where acc' = acc]) auto
      then show ?thesis ..
    qed
  qed
qed


lemma findMatched_keep:
  "patternsSet post \<Longrightarrow> \<forall>p \<in> set post. matchesRef p tagRef \<longrightarrow> Priority p \<le> Priority m \<Longrightarrow>
   findMatched post tagRef (Some m) = Inr (Some m)"
proof (induction post)
  case Nil
  then show ?case by simp
next
  case (Cons x xs)
  then have px: "Pattern x \<noteq> None" and pxs: "patternsSet xs"
    by (simp_all add: patternsSet_Cons)
  have "\<not> (matchesRef x tagRef \<and> (\<forall>m'. Some m = Some m' \<longrightarrow> Priority m' < Priority x))"
    using Cons.prems(2) by auto
  then have "findMatched (x # xs) tagRef (Some m) = findMatched xs tagRef (Some m)"
    using px by (rule findMatched_skip [rotated])
  then show ?case using Cons.IH [OF pxs] Cons.prems(2) by simp
qed

lemma findMatched_first_max:
  "patternsSet (pre @ P # post) \<Longrightarrow> matchesRef P tagRef \<Longrightarrow>
   \<forall>p \<in> set pre. matchesRef p tagRef \<longrightarrow> Priority p < Priority P \<Longrightarrow>
   \<forall>p \<in> set post. matchesRef p tagRef \<longrightarrow> Priority p \<le> Priority P \<Longrightarrow>
   \<forall>m. acc = Some m \<longrightarrow> Priority m < Priority P \<Longrightarrow>
   findMatched (pre @ P # post) tagRef acc = Inr (Some P)"
proof (induction pre arbitrary: acc)
  case Nil
  then have pP: "Pattern P \<noteq> None" and ppost: "patternsSet post"
    by (simp_all add: patternsSet_Cons)
  have "findMatched (P # post) tagRef acc = findMatched post tagRef (Some P)"
    using pP Nil.prems(2,5) by (rule findMatched_take)
  also have "\<dots> = Inr (Some P)"
    using ppost Nil.prems(4) by (rule findMatched_keep)
  finally show ?case by simp
next
  case (Cons x xs)
  then have px: "Pattern x \<noteq> None" and pxs: "patternsSet (xs @ P # post)"
    by (simp_all add: patternsSet_Cons)
  have lt: "matchesRef x tagRef \<longrightarrow> Priority x < Priority P"
    using Cons.prems(3) by simp
  have rest: "\<forall>p \<in> set xs. matchesRef p tagRef \<longrightarrow> Priority p < Priority P"
    using Cons.prems(3) by simp
  show ?case
  proof (cases "matchesRef x tagRef \<and> (\<forall>m. acc = Some m \<longrightarrow> Priority m < Priority x)")
    case True
    then have "findMatched (x # xs @ P # post) tagRef acc = findMatched (xs @ P # post) tagRef (Some x)"
      using px by (intro findMatched_take) auto
    moreover have "findMatched (xs @ P # post) tagRef (Some x) = Inr (Some P)"
      using pxs Cons.prems(2) rest Cons.prems(4) lt True by (intro Cons.IH) auto
    ultimately show ?thesis by simp
  next
    case False
    then have "findMatched (x # xs @ P # post) tagRef acc = findMatched (xs @ P # post) tagRef acc"
      using px by (intro findMatched_skip) auto
    moreover have "findMatched (xs @ P # post) tagRef acc = Inr (Some P)"
      using pxs Cons.prems(2) rest Cons.prems(4,5) by (intro Cons.IH) auto
    ultimately show ?thesis by simp
  qed
qed

subsection \<open>The scan of \<^verbatim>\<open>CanDelete\<close>\<close>

lemma deleteScan_step:
  "Pattern x \<noteq> None \<Longrightarrow>
   deleteScan (x # xs) tagRef =
     (if matchesRef x tagRef \<and> \<not> AllowDelete x
      then Inr (False, ''tag deletion not allowed (policy: '' @ Name x @ '')'')
      else deleteScan xs tagRef)"
  by (simp add: MatchString_set)

lemma deleteScan_allowed:
  "patternsSet ps \<Longrightarrow> \<forall>p \<in> set ps. matchesRef p tagRef \<longrightarrow> AllowDelete p \<Longrightarrow>
   deleteScan ps tagRef = Inr (True, [])"
proof (induction ps)
  case Nil
  then show ?case by simp
next
  case (Cons x xs)
  then have px: "Pattern x \<noteq> None" and pxs: "patternsSet xs"
    by (simp_all add: patternsSet_Cons)
  have "deleteScan (x # xs) tagRef = deleteScan xs tagRef"
    using deleteScan_step [OF px, of xs tagRef] Cons.prems(2) by (auto simp del: deleteScan.simps)
  then show ?case using Cons.IH [OF pxs] Cons.prems(2) by simp
qed

lemma deleteScan_veto:
  "patternsSet (pre @ P # post) \<Longrightarrow> \<forall>p \<in> set pre. matchesRef p tagRef \<longrightarrow> AllowDelete p \<Longrightarrow>
   matchesRef P tagRef \<Longrightarrow> \<not> AllowDelete P \<Longrightarrow>
   deleteScan (pre @ P # post) tagRef =
     Inr (False, ''tag deletion not allowed (policy: '' @ Name P @ '')'')"
proof (induction pre)
  case Nil
  then have "Pattern P \<noteq> None" by (simp add: patternsSet_Cons)
  from deleteScan_step [OF this, of post tagRef] Nil.prems(3,4) show ?case
    by (simp del: deleteScan.simps)
next
  case (Cons x xs)
  then have px: "Pattern x \<noteq> None" and pxs: "patternsSet (xs @ P # post)"
    by (simp_all add: patternsSet_Cons)
  have "deleteScan (x # xs @ P # post) tagRef = deleteScan (xs @ P # post) tagRef"
    using deleteScan_step [OF px, of "xs @ P # post" tagRef] Cons.prems(2)
    by (auto simp del: deleteScan.simps)
  then show ?case using Cons.IH [OF pxs] Cons.prems(2,3,4) by simp
qed

subsection \<open>The claims on tag protection\<close>

lemmas CanModify_eval =
  CanModify_def tagRef_of_def decide_def patternsSet_def matchesRef_def example_policies

text \<open>
  Claim C10. \<^verbatim>\<open>AddPolicy\<close> with a policy whose pattern is nil returns an error and
  leaves the engine as it was; with a policy whose pattern is set it returns no error,
  and the collection is the old one with that policy appended at its end.
\<close>

theorem AddPolicy_atomic:
  "(Pattern policy = None \<longrightarrow>
      (\<exists>e. snd (AddPolicy tp policy) = Some e) \<and> fst (AddPolicy tp policy) = tp) \<and>
   (Pattern policy \<noteq> None \<longrightarrow>
      snd (AddPolicy tp policy) = None \<and>
      policies (fst (AddPolicy tp policy)) = policies tp @ [policy])"
  by (simp add: AddPolicy_def)

theorem AddPolicy_atomic_witness:
  "Pattern noPattern = None \<and>
   AddPolicy \<lparr>policies = [allowAll]\<rparr> noPattern =
     (\<lparr>policies = [allowAll]\<rparr>, Some ''policy pattern cannot be nil'') \<and>
   Pattern blockProd \<noteq> None \<and>
   AddPolicy \<lparr>policies = [allowAll]\<rparr> blockProd = (\<lparr>policies = [allowAll, blockProd]\<rparr>, None)"
  using AddPolicy_atomic [of noPattern "\<lparr>policies = [allowAll]\<rparr>"]
    AddPolicy_atomic [of blockProd "\<lparr>policies = [allowAll]\<rparr>"]
  by (simp add: AddPolicy_def noPattern_def blockProd_def)

text \<open>
  Claim C2. Let the patterns of the collection be set, as \<^verbatim>\<open>AddPolicy\<close> ensures. If no
  policy matches \<^verbatim>\<open>repository:tag\<close>, \<^verbatim>\<open>CanModify\<close> allows with the empty reason. If
  some policy matches, there is a winner \<open>P\<close>: a matching policy whose priority is
  greater than that of every matching policy before it and at least that of every
  matching policy after it. For every such winner: if \<open>P\<close> is immutable the result is
  a refusal whose reason contains the name of \<open>P\<close>; else if its \<^verbatim>\<open>MaxAge\<close> is positive the
  result is a refusal naming \<open>P\<close> when \<open>age < MaxAge P\<close> and permission when
  \<open>MaxAge P \<le> age\<close>; else permission.
\<close>

theorem CanModify_decision:
  assumes "patternsSet (policies tp)"
  shows
    "((\<forall>p \<in> set (policies tp). \<not> matchesRef p (repository @ '':'' @ tag)) \<longrightarrow>
        CanModify durString tp repository tag age = Inr (True, [])) \<and>
     ((\<exists>p \<in> set (policies tp). matchesRef p (repository @ '':'' @ tag)) \<longrightarrow>
        (\<exists>pre P post. policies tp = pre @ P # post \<and>
           matchesRef P (repository @ '':'' @ tag) \<and>
           (\<forall>p \<in> set pre. matchesRef p (repository @ '':'' @ tag) \<longrightarrow> Priority p < Priority P) \<and>
           (\<forall>p \<in> set post. matchesRef p (repository @ '':'' @ tag) \<longrightarrow> Priority p \<le> Priority P))) \<and>
     (\<forall>pre P post.
        policies tp = pre @ P # post \<and> matchesRef P (repository @ '':'' @ tag) \<and>
        (\<forall>p \<in> set pre. matchesRef p (repository @ '':'' @ tag) \<longrightarrow> Priority p < Priority P) \<and>
        (\<forall>p \<in> set post. matchesRef p (repository @ '':'' @ tag) \<longrightarrow> Priority p \<le> Priority P) \<longrightarrow>
        (Immutable P \<longrightarrow>
           CanModify durString tp repository tag age =
             Inr (False, ''tag is immutable (policy: '' @ Name P @ '')'') \<and>
           sublist (Name P) (''tag is immutable (policy: '' @ Name P @ '')'')) \<and>
        (\<not> Immutable P \<and> 0 < MaxAge P \<and> age < MaxAge P \<longrightarrow>
           CanModify durString tp repository tag age =
             Inr (False, ''tag protected for '' @ durString (MaxAge P) @
                         '' (policy: '' @ Name P @ '')'') \<and>
           sublist (Name P) (''tag protected for '' @ durString (MaxAge P) @
                         '' (policy: '' @ Name P @ '')'')) \<and>
        (\<not> Immutable P \<and> 0 < MaxAge P \<and> MaxAge P \<le> age \<longrightarrow>
           CanModify durString tp repository tag age = Inr (True, [])) \<and>
        (\<not> Immutable P \<and> MaxAge P \<le> 0 \<longrightarrow>
           CanModify durString tp repository tag age = Inr (True, [])))"
proof (intro conjI allI impI)
  let ?ref = "repository @ '':'' @ tag"
  {
    assume none: "\<forall>p \<in> set (policies tp). \<not> matchesRef p ?ref"
    from findMatched_cases [OF assms, of ?ref None] none
    have "findMatched (policies tp) ?ref None = Inr None"
      by (auto simp: keeps_def picks_def)
    then show "CanModify durString tp repository tag age = Inr (True, [])"
      by (simp add: CanModify_def tagRef_of_def decide_def)
  }
  {
    assume some: "\<exists>p \<in> set (policies tp). matchesRef p ?ref"
    from findMatched_cases [OF assms, of ?ref None] some
    have "picks (policies tp) ?ref None"
      by (auto simp: keeps_def)
    then show "\<exists>pre P post. policies tp = pre @ P # post \<and> matchesRef P ?ref \<and>
           (\<forall>p \<in> set pre. matchesRef p ?ref \<longrightarrow> Priority p < Priority P) \<and>
           (\<forall>p \<in> set post. matchesRef p ?ref \<longrightarrow> Priority p \<le> Priority P)"
      unfolding picks_def by blast
  }
  fix pre P post
  assume win: "policies tp = pre @ P # post \<and> matchesRef P ?ref \<and>
        (\<forall>p \<in> set pre. matchesRef p ?ref \<longrightarrow> Priority p < Priority P) \<and>
        (\<forall>p \<in> set post. matchesRef p ?ref \<longrightarrow> Priority p \<le> Priority P)"
  have "findMatched (pre @ P # post) ?ref None = Inr (Some P)"
    using assms win by (intro findMatched_first_max) auto
  then have res: "CanModify durString tp repository tag age = Inr (decide durString (Some P) age)"
    using win by (simp add: CanModify_def tagRef_of_def)
  {
    assume "Immutable P"
    then show "CanModify durString tp repository tag age =
             Inr (False, ''tag is immutable (policy: '' @ Name P @ '')'')"
      using res by (simp add: decide_def)
    show "sublist (Name P) (''tag is immutable (policy: '' @ Name P @ '')'')"
      by (rule sublist_appendI)
  }
  {
    assume "\<not> Immutable P \<and> 0 < MaxAge P \<and> age < MaxAge P"
    then show "CanModify durString tp repository tag age =
             Inr (False, ''tag protected for '' @ durString (MaxAge P) @
                         '' (policy: '' @ Name P @ '')'')"
      using res by (simp add: decide_def)
    show "sublist (Name P) (''tag protected for '' @ durString (MaxAge P) @
                         '' (policy: '' @ Name P @ '')'')"
      using sublist_appendI [of "Name P" "''tag protected for '' @ durString (MaxAge P) @ '' (policy: ''" "'')''"]
      by simp
  }
  {
    assume "\<not> Immutable P \<and> 0 < MaxAge P \<and> MaxAge P \<le> age"
    then show "CanModify durString tp repository tag age = Inr (True, [])"
      using res by (simp add: decide_def)
  }
  {
    assume "\<not> Immutable P \<and> MaxAge P \<le> 0"
    then show "CanModify durString tp repository tag age = Inr (True, [])"
      using res by (simp add: decide_def)
  }
qed


theorem CanModify_decision_witness:
  "patternsSet (policies \<lparr>policies = [allowAll, blockProd]\<rparr>) \<and>
   CanModify weekString \<lparr>policies = [allowAll, blockProd]\<rparr> ''production/api'' ''v2.0.0''
     3600000000000 = Inr (False, ''tag is immutable (policy: block-prod)'') \<and>
   CanModify weekString \<lparr>policies = [allowAll, blockProd]\<rparr> ''staging/api'' ''v2.0.0''
     3600000000000 = Inr (True, []) \<and>
   patternsSet (policies \<lparr>policies = [recentProtection]\<rparr>) \<and>
   CanModify weekString \<lparr>policies = [recentProtection]\<rparr> ''library/redis'' ''6.2''
     259200000000000 = Inr (False, ''tag protected for 168h0m0s (policy: recent-protection)'') \<and>
   CanModify weekString \<lparr>policies = [recentProtection]\<rparr> ''library/redis'' ''5.0''
     2592000000000000 = Inr (True, []) \<and>
   CanModify weekString \<lparr>policies = [blockProd]\<rparr> ''library/nginx'' ''latest''
     3600000000000 = Inr (True, [])"
proof -
  have h1: "patternsSet (policies \<lparr>policies = [allowAll, blockProd]\<rparr>)"
    by (simp add: patternsSet_def example_policies)
  have h2: "patternsSet (policies \<lparr>policies = [recentProtection]\<rparr>)"
    by (simp add: patternsSet_def example_policies)
  have h3: "patternsSet (policies \<lparr>policies = [blockProd]\<rparr>)"
    by (simp add: patternsSet_def example_policies)
  have a: "CanModify weekString \<lparr>policies = [allowAll, blockProd]\<rparr> ''production/api'' ''v2.0.0''
     3600000000000 = Inr (False, ''tag is immutable (policy: block-prod)'')"
    using CanModify_decision [OF h1, where repository = "''production/api''"
        and tag = "''v2.0.0''" and durString = weekString and age = 3600000000000]
    by (simp add: CanModify_eval)
  have b: "CanModify weekString \<lparr>policies = [allowAll, blockProd]\<rparr> ''staging/api'' ''v2.0.0''
     3600000000000 = Inr (True, [])"
    using CanModify_decision [OF h1, where repository = "''staging/api''"
        and tag = "''v2.0.0''" and durString = weekString and age = 3600000000000]
    by (simp add: CanModify_eval)
  have c: "CanModify weekString \<lparr>policies = [recentProtection]\<rparr> ''library/redis'' ''6.2''
     259200000000000 = Inr (False, ''tag protected for 168h0m0s (policy: recent-protection)'')"
    using CanModify_decision [OF h2, where repository = "''library/redis''"
        and tag = "''6.2''" and durString = weekString and age = 259200000000000]
    by (simp add: CanModify_eval weekString_def)
  have d: "CanModify weekString \<lparr>policies = [recentProtection]\<rparr> ''library/redis'' ''5.0''
     2592000000000000 = Inr (True, [])"
    using CanModify_decision [OF h2, where repository = "''library/redis''"
        and tag = "''5.0''" and durString = weekString and age = 2592000000000000]
    by (simp add: CanModify_eval)
  have e: "CanModify weekString \<lparr>policies = [blockProd]\<rparr> ''library/nginx'' ''latest''
     3600000000000 = Inr (True, [])"
    using CanModify_decision [OF h3, where repository = "''library/nginx''"
        and tag = "''latest''" and durString = weekString and age = 3600000000000]
    by (simp add: CanModify_eval)
  show ?thesis using h1 h2 a b c d e by simp
qed

text \<open>
  Claim C3. When two policies with priorities 1 and 10 both match a reference, the
  engine that received them in either order decides as the engine that holds the
  policy of priority 10 alone. In general the policy that decides is the earliest one
  of greatest priority among the matching ones: a collection \<open>pre @ P # post\<close> in which
  \<open>P\<close> matches, the matching policies of \<open>pre\<close> have a smaller priority and those of
  \<open>post\<close> none greater, decides as \<open>P\<close> alone, so at equal priorities the policy
  inserted first wins.
\<close>

theorem CanModify_priority:
  "(Pattern a \<noteq> None \<and> Pattern b \<noteq> None \<and>
    matchesRef a (repository @ '':'' @ tag) \<and> matchesRef b (repository @ '':'' @ tag) \<and>
    Priority a = 1 \<and> Priority b = 10 \<longrightarrow>
      CanModify durString (fst (AddPolicy (fst (AddPolicy NewTagProtection a)) b))
          repository tag age =
        CanModify durString (fst (AddPolicy NewTagProtection b)) repository tag age \<and>
      CanModify durString (fst (AddPolicy (fst (AddPolicy NewTagProtection b)) a))
          repository tag age =
        CanModify durString (fst (AddPolicy NewTagProtection b)) repository tag age) \<and>
   (patternsSet (pre @ P # post) \<and> matchesRef P (repository @ '':'' @ tag) \<and>
    (\<forall>p \<in> set pre. matchesRef p (repository @ '':'' @ tag) \<longrightarrow> Priority p < Priority P) \<and>
    (\<forall>p \<in> set post. matchesRef p (repository @ '':'' @ tag) \<longrightarrow> Priority p \<le> Priority P) \<longrightarrow>
      CanModify durString \<lparr>policies = pre @ P # post\<rparr> repository tag age =
        CanModify durString \<lparr>policies = [P]\<rparr> repository tag age)"
proof -
  let ?ref = "repository @ '':'' @ tag"
  have alone: "CanModify durString \<lparr>policies = xs @ Q # ys\<rparr> repository tag age =
        CanModify durString \<lparr>policies = [Q]\<rparr> repository tag age"
    if "patternsSet (xs @ Q # ys)" "matchesRef Q ?ref"
      "\<forall>p \<in> set xs. matchesRef p ?ref \<longrightarrow> Priority p < Priority Q"
      "\<forall>p \<in> set ys. matchesRef p ?ref \<longrightarrow> Priority p \<le> Priority Q"
    for xs Q ys
  proof -
    have "findMatched (xs @ Q # ys) ?ref None = Inr (Some Q)"
      using that by (intro findMatched_first_max) auto
    moreover have "findMatched ([] @ Q # []) ?ref None = Inr (Some Q)"
      using that by (intro findMatched_first_max) (auto simp: patternsSet_append patternsSet_Cons patternsSet_def)
    ultimately show ?thesis
      by (simp add: CanModify_def tagRef_of_def del: findMatched.simps)
  qed
  have two: "CanModify durString (fst (AddPolicy (fst (AddPolicy NewTagProtection a)) b))
          repository tag age =
        CanModify durString (fst (AddPolicy NewTagProtection b)) repository tag age \<and>
      CanModify durString (fst (AddPolicy (fst (AddPolicy NewTagProtection b)) a))
          repository tag age =
        CanModify durString (fst (AddPolicy NewTagProtection b)) repository tag age"
    if h: "Pattern a \<noteq> None \<and> Pattern b \<noteq> None \<and> matchesRef a ?ref \<and> matchesRef b ?ref \<and>
      Priority a = 1 \<and> Priority b = 10"
  proof -
    have ab: "fst (AddPolicy (fst (AddPolicy NewTagProtection a)) b) = \<lparr>policies = [a, b]\<rparr>"
      and ba: "fst (AddPolicy (fst (AddPolicy NewTagProtection b)) a) = \<lparr>policies = [b, a]\<rparr>"
      and b: "fst (AddPolicy NewTagProtection b) = \<lparr>policies = [b]\<rparr>"
      using h by (simp_all add: AddPolicy_def NewTagProtection_def)
    have first: "CanModify durString \<lparr>policies = [a, b]\<rparr> repository tag age =
        CanModify durString \<lparr>policies = [b]\<rparr> repository tag age"
      using alone [of "[a]" b "[]"] h by (simp add: patternsSet_def)
    have second: "CanModify durString \<lparr>policies = [b, a]\<rparr> repository tag age =
        CanModify durString \<lparr>policies = [b]\<rparr> repository tag age"
      using alone [of "[]" b "[a]"] h by (simp add: patternsSet_def)
    show ?thesis
      using h first second by (auto simp: AddPolicy_def NewTagProtection_def)
  qed
  show ?thesis using alone [of pre P post] two by blast
qed

theorem CanModify_priority_witness:
  "Pattern allowAll \<noteq> None \<and> Pattern blockProd \<noteq> None \<and>
   matchesRef allowAll (''production/api'' @ '':'' @ ''v2.0.0'') \<and>
   matchesRef blockProd (''production/api'' @ '':'' @ ''v2.0.0'') \<and>
   Priority allowAll = 1 \<and> Priority blockProd = 10 \<and>
   CanModify weekString (fst (AddPolicy (fst (AddPolicy NewTagProtection allowAll)) blockProd))
     ''production/api'' ''v2.0.0'' 3600000000000 =
     Inr (False, ''tag is immutable (policy: block-prod)'') \<and>
   CanModify weekString (fst (AddPolicy (fst (AddPolicy NewTagProtection blockProd)) allowAll))
     ''production/api'' ''v2.0.0'' 3600000000000 =
     Inr (False, ''tag is immutable (policy: block-prod)'') \<and>
   CanModify weekString (fst (AddPolicy NewTagProtection blockProd))
     ''production/api'' ''v2.0.0'' 3600000000000 =
     Inr (False, ''tag is immutable (policy: block-prod)'') \<and>
   patternsSet ([allowAll] @ recentProtection # [freezeAll]) \<and>
   Priority recentProtection = Priority freezeAll \<and>
   CanModify weekString \<lparr>policies = [allowAll] @ recentProtection # [freezeAll]\<rparr>
     ''library/redis'' ''5.0'' 2592000000000000 = Inr (True, []) \<and>
   CanModify weekString \<lparr>policies = [recentProtection]\<rparr>
     ''library/redis'' ''5.0'' 2592000000000000 = Inr (True, []) \<and>
   CanModify weekString \<lparr>policies = [allowAll] @ freezeAll # [recentProtection]\<rparr>
     ''library/redis'' ''5.0'' 2592000000000000 =
     Inr (False, ''tag is immutable (policy: freeze-all)'')"
  using CanModify_priority [of allowAll blockProd "''production/api''" "''v2.0.0''" weekString
      3600000000000 "[allowAll]" recentProtection "[freezeAll]"]
    CanModify_priority [of allowAll blockProd "''library/redis''" "''5.0''" weekString
      2592000000000000 "[allowAll]" recentProtection "[freezeAll]"]
  by (simp add: CanModify_eval AddPolicy_def NewTagProtection_def)

text \<open>
  Claim C4. \<^verbatim>\<open>CanDelete\<close> goes through the collection in its order and ignores the
  priorities. It refuses exactly when some policy matches \<^verbatim>\<open>repository:tag\<close> and has
  \<^verbatim>\<open>AllowDelete\<close> false; the first such policy of the collection decides, and the
  reason names it. When no matching policy has \<^verbatim>\<open>AllowDelete\<close> false the result is
  permission with the empty reason.
\<close>

theorem CanDelete_first_veto:
  assumes "patternsSet (policies tp)"
  shows
    "((\<exists>reason. CanDelete tp repository tag = Inr (False, reason)) \<longleftrightarrow>
        (\<exists>p \<in> set (policies tp). matchesRef p (repository @ '':'' @ tag) \<and> \<not> AllowDelete p)) \<and>
     (\<forall>pre P post.
        policies tp = pre @ P # post \<and>
        (\<forall>p \<in> set pre. matchesRef p (repository @ '':'' @ tag) \<longrightarrow> AllowDelete p) \<and>
        matchesRef P (repository @ '':'' @ tag) \<and> \<not> AllowDelete P \<longrightarrow>
        CanDelete tp repository tag =
          Inr (False, ''tag deletion not allowed (policy: '' @ Name P @ '')'') \<and>
        sublist (Name P) (''tag deletion not allowed (policy: '' @ Name P @ '')'')) \<and>
     ((\<forall>p \<in> set (policies tp). matchesRef p (repository @ '':'' @ tag) \<longrightarrow> AllowDelete p) \<longrightarrow>
        CanDelete tp repository tag = Inr (True, []))"
proof -
  let ?ref = "repository @ '':'' @ tag"
  let ?veto = "\<lambda>p. matchesRef p ?ref \<and> \<not> AllowDelete p"
  have allowed: "CanDelete tp repository tag = Inr (True, [])"
    if "\<forall>p \<in> set (policies tp). matchesRef p ?ref \<longrightarrow> AllowDelete p"
    using deleteScan_allowed [OF assms that] by (simp add: CanDelete_def tagRef_of_def)
  have veto: "CanDelete tp repository tag =
          Inr (False, ''tag deletion not allowed (policy: '' @ Name P @ '')'')"
    if "policies tp = pre @ P # post" "\<forall>p \<in> set pre. matchesRef p ?ref \<longrightarrow> AllowDelete p"
      "matchesRef P ?ref" "\<not> AllowDelete P" for pre P post
    using deleteScan_veto [of pre P post ?ref] assms that
    by (simp add: CanDelete_def tagRef_of_def)
  have iff: "(\<exists>reason. CanDelete tp repository tag = Inr (False, reason)) \<longleftrightarrow>
        (\<exists>p \<in> set (policies tp). ?veto p)"
  proof
    assume "\<exists>reason. CanDelete tp repository tag = Inr (False, reason)"
    then show "\<exists>p \<in> set (policies tp). ?veto p"
      using allowed by fastforce
  next
    assume "\<exists>p \<in> set (policies tp). ?veto p"
    then obtain pre P post where "policies tp = pre @ P # post" "?veto P"
      "\<forall>p \<in> set pre. \<not> ?veto p"
      using split_list_first_prop [of "policies tp" ?veto] by blast
    then show "\<exists>reason. CanDelete tp repository tag = Inr (False, reason)"
      using veto [of pre P post] by auto
  qed
  have sub: "sublist (Name P) (''tag deletion not allowed (policy: '' @ Name P @ '')'')" for P
    by (rule sublist_appendI)
  show ?thesis using iff veto allowed sub by blast
qed

theorem CanDelete_first_veto_witness:
  "patternsSet (policies \<lparr>policies = [blockProd, allowAll, recentProtection]\<rparr>) \<and>
   CanDelete \<lparr>policies = [blockProd, allowAll, recentProtection]\<rparr> ''production/api'' ''v2.0.0'' =
     Inr (False, ''tag deletion not allowed (policy: allow-all)'') \<and>
   patternsSet (policies \<lparr>policies = [blockProd]\<rparr>) \<and>
   CanDelete \<lparr>policies = [blockProd]\<rparr> ''production/api'' ''v2.0.0'' = Inr (True, [])"
proof -
  have h1: "patternsSet (policies \<lparr>policies = [blockProd, allowAll, recentProtection]\<rparr>)"
    by (simp add: patternsSet_def example_policies)
  have h2: "patternsSet (policies \<lparr>policies = [blockProd]\<rparr>)"
    by (simp add: patternsSet_def example_policies)
  show ?thesis
    using h1 h2
      CanDelete_first_veto [OF h1, where repository = "''production/api''" and tag = "''v2.0.0''"]
      CanDelete_first_veto [OF h2, where repository = "''production/api''" and tag = "''v2.0.0''"]
    by (simp add: CanDelete_def CanModify_eval)
qed

section \<open>Properties of batch execution\<close>

subsection \<open>Tasks, slots and the final status\<close>

lemma runTask_length [simp]:
  "length (runTask handler elapsed results idx tgt) = length results"
  by (simp add: runTask_def Let_def split: option.splits)

lemma runTask_nth:
  "i < length results \<Longrightarrow>
   runTask handler elapsed results idx (targets ! idx) ! i =
     (if i = idx then taskResult handler elapsed targets idx else results ! i)"
  by (simp add: runTask_def taskResult_def Let_def split: option.splits)

lemma runTasks_length [simp]:
  "length (runTasks handler elapsed targets order results) = length results"
  by (induction order arbitrary: results) simp_all

lemma runTasks_nth:
  "i < length results \<Longrightarrow>
   runTasks handler elapsed targets order results ! i =
     (if i \<in> set order then taskResult handler elapsed targets i else results ! i)"
proof (induction order arbitrary: results)
  case Nil
  then show ?case by simp
next
  case (Cons idx order)
  have "runTasks handler elapsed targets (idx # order) results ! i =
      runTasks handler elapsed targets order
        (runTask handler elapsed results idx (targets ! idx)) ! i"
    by simp
  also have "\<dots> = (if i \<in> set order then taskResult handler elapsed targets i
      else runTask handler elapsed results idx (targets ! idx) ! i)"
    using Cons.prems by (intro Cons.IH) simp
  also have "\<dots> = (if i \<in> set (idx # order) then taskResult handler elapsed targets i
      else results ! i)"
    using Cons.prems by (simp add: runTask_nth)
  finally show ?case .
qed

lemma runTasks_all:
  assumes "everyTaskOnce order (length targets)"
  shows "runTasks handler elapsed targets order (replicate (length targets) zeroResult) =
     map (taskResult handler elapsed targets) [0..<length targets]"
proof (rule nth_equalityI)
  show "length (runTasks handler elapsed targets order (replicate (length targets) zeroResult)) =
      length (map (taskResult handler elapsed targets) [0..<length targets])"
    by simp
next
  fix i
  assume "i < length (runTasks handler elapsed targets order (replicate (length targets) zeroResult))"
  then have i: "i < length targets" by simp
  then have "i \<in> set order" using assms by (simp add: everyTaskOnce_def)
  then show "runTasks handler elapsed targets order (replicate (length targets) zeroResult) ! i =
      map (taskResult handler elapsed targets) [0..<length targets] ! i"
    using i by (simp add: runTasks_nth)
qed

lemma finalStatus_cases:
  "finalStatus results = (if \<forall>r \<in> set results. Success r then BatchOpCompleted else BatchOpFailed)"
  by (induction results) auto

lemma executeBatch_Finished:
  assumes "a < length (heap bo)"
    and "everyTaskOnce (finishOrder env) (length (Targets (heap bo ! a)))"
    and "executeBatch bo a handler env = Finished bo'"
  shows "heap bo' ! a = finishedOp (heap bo ! a) handler env"
  using assms runTasks_all [OF assms(2), of handler "elapsedOf env"]
  by (auto simp: executeBatch_def finishedOp_def Let_def split: if_splits)

lemma executeBatch_finishes:
  assumes "a < length (heap bo)" and "0 < workers bo"
  shows "\<exists>bo'. executeBatch bo a handler env = Finished bo'"
  using assms by (simp add: executeBatch_def Let_def)

subsection \<open>The claims on batch execution\<close>

text \<open>
  Claim C5. Take an operation of the executor and an execution of it in which every
  task runs once, in any order. With at least one worker the execution finishes. Once
  it has finished, the status of the operation is completed if and only if every result
  has its success flag set, and failed if and only if some result has not; and when
  the action fails for exactly one target, the status is failed, the result of that
  target has no success, and the results of all other targets have success.
\<close>

theorem batch_final_status:
  assumes "a < length (heap bo)"
    and "everyTaskOnce (finishOrder env) (length (Targets (heap bo ! a)))"
  shows
    "(0 < workers bo \<longrightarrow> (\<exists>bo'. executeBatch bo a handler env = Finished bo')) \<and>
     (\<forall>bo'. executeBatch bo a handler env = Finished bo' \<longrightarrow>
        (Status_op (heap bo' ! a) = BatchOpCompleted \<longleftrightarrow>
           (\<forall>r \<in> set (Results (heap bo' ! a)). Success r)) \<and>
        (Status_op (heap bo' ! a) = BatchOpFailed \<longleftrightarrow>
           (\<exists>r \<in> set (Results (heap bo' ! a)). \<not> Success r)) \<and>
        (\<forall>k < length (Targets (heap bo ! a)).
           handler k (Targets (heap bo ! a) ! k) \<noteq> None \<and>
           (\<forall>i < length (Targets (heap bo ! a)).
              i \<noteq> k \<longrightarrow> handler i (Targets (heap bo ! a) ! i) = None) \<longrightarrow>
           Status_op (heap bo' ! a) = BatchOpFailed \<and>
           \<not> Success (Results (heap bo' ! a) ! k) \<and>
           (\<forall>i < length (Results (heap bo' ! a)).
              i \<noteq> k \<longrightarrow> Success (Results (heap bo' ! a) ! i))))"
proof (intro conjI allI impI)
  assume "0 < workers bo"
  then show "\<exists>bo'. executeBatch bo a handler env = Finished bo'"
    using assms(1) by (rule executeBatch_finishes [rotated])
next
  fix bo'
  assume fin: "executeBatch bo a handler env = Finished bo'"
  let ?op = "heap bo ! a"
  let ?rs = "map (taskResult handler (elapsedOf env) (Targets ?op)) [0..<length (Targets ?op)]"
  have op': "heap bo' ! a = finishedOp ?op handler env"
    using assms fin by (rule executeBatch_Finished)
  then have st: "Status_op (heap bo' ! a) = finalStatus ?rs"
    and rs: "Results (heap bo' ! a) = ?rs"
    by (simp_all add: finishedOp_def)
  show "Status_op (heap bo' ! a) = BatchOpCompleted \<longleftrightarrow>
      (\<forall>r \<in> set (Results (heap bo' ! a)). Success r)"
    unfolding st rs by (simp add: finalStatus_cases)
  show "Status_op (heap bo' ! a) = BatchOpFailed \<longleftrightarrow>
      (\<exists>r \<in> set (Results (heap bo' ! a)). \<not> Success r)"
    unfolding st rs by (simp add: finalStatus_cases)
  fix k
  assume k: "k < length (Targets ?op)"
    and one: "handler k (Targets ?op ! k) \<noteq> None \<and>
      (\<forall>i < length (Targets ?op). i \<noteq> k \<longrightarrow> handler i (Targets ?op ! i) = None)"
  have bad: "\<not> Success (?rs ! k)"
    using k one by (simp add: taskResult_def)
  then show "\<not> Success (Results (heap bo' ! a) ! k)"
    by (simp add: rs)
  have "?rs ! k \<in> set ?rs"
    using k by (intro nth_mem) simp
  with bad have nall: "\<not> (\<forall>r \<in> set ?rs. Success r)" by blast
  show "Status_op (heap bo' ! a) = BatchOpFailed"
    using nall by (simp add: st finalStatus_cases)
  fix i
  assume "i < length (Results (heap bo' ! a))" and "i \<noteq> k"
  then show "Success (Results (heap bo' ! a) ! i)"
    using one by (simp add: rs taskResult_def)
qed

text \<open>
  Claim C6. Under the same conditions, once the execution has finished the targets are
  unchanged, there are as many results as targets, and the result at every index
  carries the target of that index, whatever the order in which the tasks finished.
\<close>

theorem batch_results_order:
  assumes "a < length (heap bo)"
    and "everyTaskOnce (finishOrder env) (length (Targets (heap bo ! a)))"
  shows
    "(0 < workers bo \<longrightarrow> (\<exists>bo'. executeBatch bo a handler env = Finished bo')) \<and>
     (\<forall>bo'. executeBatch bo a handler env = Finished bo' \<longrightarrow>
        Targets (heap bo' ! a) = Targets (heap bo ! a) \<and>
        length (Results (heap bo' ! a)) = length (Targets (heap bo' ! a)) \<and>
        (\<forall>i < length (Targets (heap bo' ! a)).
           Target (Results (heap bo' ! a) ! i) = Targets (heap bo' ! a) ! i))"
proof (intro conjI allI impI)
  assume "0 < workers bo"
  then show "\<exists>bo'. executeBatch bo a handler env = Finished bo'"
    using assms(1) by (rule executeBatch_finishes [rotated])
next
  fix bo'
  assume fin: "executeBatch bo a handler env = Finished bo'"
  have op': "heap bo' ! a = finishedOp (heap bo ! a) handler env"
    using assms fin by (rule executeBatch_Finished)
  show tg: "Targets (heap bo' ! a) = Targets (heap bo ! a)"
    by (simp add: op' finishedOp_def)
  show "length (Results (heap bo' ! a)) = length (Targets (heap bo' ! a))"
    by (simp add: op' finishedOp_def)
  fix i
  assume "i < length (Targets (heap bo' ! a))"
  then show "Target (Results (heap bo' ! a) ! i) = Targets (heap bo' ! a) ! i"
    by (simp add: op' finishedOp_def taskResult_def)
qed

subsection \<open>The claims at the example batch\<close>

lemma submitted_heap:
  "heap submitted = [\<lparr>ID = generateID 1700000000000000000, Type = BatchOpDelete,
      Targets = threeTags, Status_op = BatchOpPending, Results = [], CreatedAt = 5,
      StartedAt = 0, EndedAt = 0\<rparr>]"
  by (simp add: submitted_def DeleteTags_def submit_def NewBatchOperator_def Let_def)

lemma lastFirst_once: "everyTaskOnce (finishOrder lastFirst) (length threeTags)"
  by (auto simp: everyTaskOnce_def lastFirst_def threeTags_def)

lemma submitted_ready:
  "0 < length (heap submitted) \<and>
   everyTaskOnce (finishOrder lastFirst) (length (Targets (heap submitted ! 0))) \<and>
   0 < workers submitted"
  using lastFirst_once
  by (simp add: submitted_heap)
    (simp add: submitted_def DeleteTags_def submit_def NewBatchOperator_def Let_def)

theorem batch_final_status_witness:
  "0 < length (heap submitted) \<and>
   everyTaskOnce (finishOrder lastFirst) (length (Targets (heap submitted ! 0))) \<and>
   0 < workers submitted \<and>
   failSecond 1 (Targets (heap submitted ! 0) ! 1) \<noteq> None \<and>
   failSecond 0 (Targets (heap submitted ! 0) ! 0) = None \<and>
   failSecond 2 (Targets (heap submitted ! 0) ! 2) = None \<and>
   (\<exists>bo'. executeBatch submitted 0 failSecond lastFirst = Finished bo' \<and>
      Status_op (heap bo' ! 0) = BatchOpFailed \<and>
      Status_op (heap bo' ! 0) \<noteq> BatchOpCompleted \<and>
      \<not> Success (Results (heap bo' ! 0) ! 1) \<and>
      Success (Results (heap bo' ! 0) ! 0) \<and> Success (Results (heap bo' ! 0) ! 2))"
proof -
  have len: "0 < length (heap submitted)"
    and once: "everyTaskOnce (finishOrder lastFirst) (length (Targets (heap submitted ! 0)))"
    and w: "0 < workers submitted"
    using submitted_ready by simp_all
  note t = batch_final_status [OF len once, of failSecond]
  from t w obtain bo' where fin: "executeBatch submitted 0 failSecond lastFirst = Finished bo'"
    by blast
  have tg: "Targets (heap submitted ! 0) = threeTags"
    by (simp add: submitted_heap)
  have one: "failSecond 1 (Targets (heap submitted ! 0) ! 1) \<noteq> None \<and>
      (\<forall>i < length (Targets (heap submitted ! 0)).
         i \<noteq> 1 \<longrightarrow> failSecond i (Targets (heap submitted ! 0) ! i) = None)"
    by (simp add: failSecond_def)
  have k: "1 < length (Targets (heap submitted ! 0))"
    by (simp add: tg threeTags_def)
  from t fin k one have r: "Status_op (heap bo' ! 0) = BatchOpFailed \<and>
      \<not> Success (Results (heap bo' ! 0) ! 1) \<and>
      (\<forall>i < length (Results (heap bo' ! 0)). i \<noteq> 1 \<longrightarrow> Success (Results (heap bo' ! 0) ! i))"
    by blast
  have "length (Results (heap bo' ! 0)) = 3"
    using executeBatch_Finished [OF len once fin]
    by (simp add: finishedOp_def tg threeTags_def)
  with r have "Success (Results (heap bo' ! 0) ! 0) \<and> Success (Results (heap bo' ! 0) ! 2)"
    by simp
  with r fin len once w show ?thesis
    by (auto simp: failSecond_def)
qed

theorem batch_results_order_witness:
  "0 < length (heap submitted) \<and>
   everyTaskOnce (finishOrder lastFirst) (length (Targets (heap submitted ! 0))) \<and>
   0 < workers submitted \<and>
   (\<exists>bo'. executeBatch submitted 0 failSecond lastFirst = Finished bo' \<and>
      Targets (heap bo' ! 0) = threeTags \<and>
      map Target (Results (heap bo' ! 0)) = threeTags)"
proof -
  have len: "0 < length (heap submitted)"
    and once: "everyTaskOnce (finishOrder lastFirst) (length (Targets (heap submitted ! 0)))"
    and w: "0 < workers submitted"
    using submitted_ready by simp_all
  note t = batch_results_order [OF len once, of failSecond]
  from t w obtain bo' where fin: "executeBatch submitted 0 failSecond lastFirst = Finished bo'"
    by blast
  have tg: "Targets (heap submitted ! 0) = threeTags"
    by (simp add: submitted_heap)
  from t fin have r: "Targets (heap bo' ! 0) = Targets (heap submitted ! 0) \<and>
      length (Results (heap bo' ! 0)) = length (Targets (heap bo' ! 0)) \<and>
      (\<forall>i < length (Targets (heap bo' ! 0)).
         Target (Results (heap bo' ! 0) ! i) = Targets (heap bo' ! 0) ! i)"
    by blast
  then have "map Target (Results (heap bo' ! 0)) = threeTags"
    by (intro nth_equalityI) (simp_all add: tg)
  with r fin len once w tg show ?thesis by auto
qed

subsection \<open>Operation ids\<close>

text \<open>
  The decimal digits of a number determine it, and none of them is a minus sign, so
  \<^verbatim>\<open>generateID\<close> gives equal ids only for equal readings of the clock.
\<close>

lemma digit_code: "k < 10 \<Longrightarrow> (of_char (''0123456789'' ! k) :: nat) = 48 + k"
proof -
  assume "k < 10"
  then consider "k = 0" | "k = 1" | "k = 2" | "k = 3" | "k = 4" | "k = 5" | "k = 6"
    | "k = 7" | "k = 8" | "k = 9"
    by (auto simp: numeral_eq_Suc less_Suc_eq)
  then show ?thesis by cases simp_all
qed

lemma digit_not_minus: "k < 10 \<Longrightarrow> ''0123456789'' ! k \<noteq> CHR ''-''"
  using digit_code [of k] by auto

lemma decimalValue_snoc:
  "decimalValue (cs @ [c]) = 10 * decimalValue cs + (of_char c - 48)"
  by (simp add: decimalValue_def)

lemma decimalValue_digits: "decimalValue (digits n) = n"
proof (induction n rule: digits.induct)
  case (1 n)
  show ?case
  proof (cases "n < 10")
    case True
    then have "digits n = [''0123456789'' ! n]"
      by (subst digits.simps) simp
    then show ?thesis
      using True by (simp add: decimalValue_def digit_code del: digits.simps)
  next
    case False
    then have eq: "digits n = digits (n div 10) @ [''0123456789'' ! (n mod 10)]"
      by (subst digits.simps) simp
    have "decimalValue (digits n) = 10 * decimalValue (digits (n div 10)) + n mod 10"
      unfolding eq decimalValue_snoc by (simp add: digit_code del: digits.simps)
    also have "\<dots> = 10 * (n div 10) + n mod 10"
      using 1 False by simp
    finally show ?thesis by simp
  qed
qed

lemma digits_inj: "digits m = digits n \<Longrightarrow> m = n"
  using decimalValue_digits [of m] decimalValue_digits [of n] by simp

lemma digits_no_minus: "CHR ''-'' \<notin> set (digits n)"
proof (induction n rule: digits.induct)
  case (1 n)
  show ?case
  proof (cases "n < 10")
    case True
    then have "digits n = [''0123456789'' ! n]"
      by (subst digits.simps) simp
    then show ?thesis using digit_not_minus [OF True] by (simp del: digits.simps)
  next
    case False
    then have eq: "digits n = digits (n div 10) @ [''0123456789'' ! (n mod 10)]"
      by (subst digits.simps) simp
    have "n mod 10 < 10" by simp
    then show ?thesis
      unfolding eq using 1 False digit_not_minus [of "n mod 10"] by (simp del: digits.simps)
  qed
qed

lemma fmt_d_inj: "fmt_d i = fmt_d j \<Longrightarrow> i = j"
proof -
  assume eq: "fmt_d i = fmt_d j"
  have mixed: False if "x < 0" "0 \<le> y" "fmt_d x = fmt_d y" for x y
  proof -
    from that have "CHR ''-'' # digits (nat (- x)) = digits (nat y)"
      by (simp add: fmt_d_def del: digits.simps)
    then have "CHR ''-'' \<in> set (digits (nat y))"
      by (metis list.set_intros(1))
    then show False using digits_no_minus by blast
  qed
  show "i = j"
  proof (cases "i < 0")
    case True
    show ?thesis
    proof (cases "j < 0")
      case True
      with \<open>i < 0\<close> eq have "digits (nat (- i)) = digits (nat (- j))"
        by (simp add: fmt_d_def del: digits.simps)
      then have "nat (- i) = nat (- j)" by (rule digits_inj)
      with True \<open>i < 0\<close> show ?thesis by simp
    next
      case False
      with mixed [of i j] True eq show ?thesis by simp
    qed
  next
    case False
    show ?thesis
    proof (cases "j < 0")
      case True
      with mixed [of j i] False eq show ?thesis by simp
    next
      case nonneg: False
      with False eq have "digits (nat i) = digits (nat j)"
        by (simp add: fmt_d_def del: digits.simps)
      then have "nat i = nat j" by (rule digits_inj)
      with False nonneg show ?thesis by simp
    qed
  qed
qed

lemma generateID_inj: "generateID s = generateID t \<longleftrightarrow> s = t"
  using fmt_d_inj by (auto simp: generateID_def)

text \<open>
  Two submissions to a new executor whose readings of the clock differ get distinct
  ids, are both listed, and are each found under their own id.
\<close>

lemma submit_twice_distinct_clock:
  assumes "t1 \<noteq> t2"
    and "submit (NewBatchOperator w) ty1 t1 now1 targets1 = (bo1, a1)"
    and "submit bo1 ty2 t2 now2 targets2 = (bo2, a2)"
  shows "ID (heap bo2 ! a1) \<noteq> ID (heap bo2 ! a2) \<and> length (ListOperations bo2) = 2 \<and>
     GetOperation bo2 (ID (heap bo2 ! a1)) = Some a1 \<and>
     GetOperation bo2 (ID (heap bo2 ! a2)) = Some a2"
  using assms
  by (auto simp: submit_def NewBatchOperator_def Let_def ListOperations_def GetOperation_def
      generateID_inj)

text \<open>
  Claim C8, at an input where it fails. \<^verbatim>\<open>generateID\<close> derives the id from the clock
  alone. When the clock returns the same nanosecond count to two submissions, as a
  coarse clock does for calls in quick succession, the two operations are distinct
  records with equal ids: the second store replaces the first in the map, so
  \<^verbatim>\<open>ListOperations\<close> has one entry and \<^verbatim>\<open>GetOperation\<close> with the id of the first
  operation returns the second.
\<close>

theorem generateID_collision:
  "(case DeleteTags (NewBatchOperator 2) 1700000000000000000 1700000000000000000 [''test:1''] of
      (bo1, a1) \<Rightarrow>
        (case CopyTags bo1 1700000000000000000 1700000000000000000 [''test:2''] ''backup/'' of
           (bo2, a2) \<Rightarrow>
             a1 \<noteq> a2 \<and>
             Targets (heap bo2 ! a1) = [''test:1''] \<and> Targets (heap bo2 ! a2) = [''test:2''] \<and>
             ID (heap bo2 ! a1) = ID (heap bo2 ! a2) \<and>
             length (ListOperations bo2) = 1 \<and>
             GetOperation bo2 (ID (heap bo2 ! a1)) = Some a2))"
  by (simp add: DeleteTags_def CopyTags_def submit_def NewBatchOperator_def Let_def
      ListOperations_def GetOperation_def)

section \<open>Properties of the health monitor\<close>

subsection \<open>One tick\<close>

lemma performCheck_skip:
  "checks hm ep = Some c \<Longrightarrow> Circuit c = CircuitOpen \<Longrightarrow>
   Since (gateClock tk) (LastCheck c) < retryDelay hm \<Longrightarrow> performCheck hm ep tk = Inr hm"
  by (simp add: performCheck_def)

lemma performCheck_probe:
  assumes "checks hm ep = Some c"
    and "Circuit c = CircuitOpen \<longrightarrow> retryDelay hm \<le> Since (gateClock tk) (LastCheck c)"
  shows "\<exists>c'. performCheck hm ep tk = Inr (hm\<lparr>checks := (checks hm)(ep \<mapsto> c')\<rparr>) \<and>
      LastCheck c' = stampClock tk \<and>
      (probe tk = None \<longrightarrow>
         Circuit c' = CircuitClosed \<and> Status c' = HealthStatusHealthy \<and> Consecutive c' = 0) \<and>
      (probe tk \<noteq> None \<longrightarrow>
         Consecutive c' = incr64 (Consecutive c) \<and>
         (threshold hm \<le> incr64 (Consecutive c) \<longrightarrow>
            Circuit c' = CircuitOpen \<and> Status c' = HealthStatusUnhealthy) \<and>
         (\<not> threshold hm \<le> incr64 (Consecutive c) \<longrightarrow>
            Circuit c' = (if Circuit c = CircuitOpen then CircuitHalfOpen else Circuit c) \<and>
            (0 < incr64 (Consecutive c) \<longrightarrow> Status c' = HealthStatusDegraded)))"
proof (cases "Circuit c = CircuitOpen")
  case True
  with assms show ?thesis
    by (cases "probe tk")
      (auto simp: performCheck_def updateCircuit_def updateHealth_def Let_def)
next
  case False
  with assms show ?thesis
    by (cases "probe tk")
      (auto simp: performCheck_def updateHealth_def Let_def)
qed

subsection \<open>The invariant of the circuit breaker\<close>

lemma threshold_Register [simp]: "threshold (Register hm ep) = threshold hm"
  by (simp add: Register_def split: option.splits)

lemma retryDelay_Register [simp]: "retryDelay (Register hm ep) = retryDelay hm"
  by (simp add: Register_def split: option.splits)





subsection \<open>The claims on the health monitor\<close>

text \<open>
  Claim C9. \<^verbatim>\<open>Register\<close> of an endpoint that is not registered creates its record with
  status unknown, circuit closed and both counters 0, and leaves the other endpoints as
  they are. \<^verbatim>\<open>Register\<close> of an endpoint that is registered changes nothing, so its
  status, circuit and counters stay; in particular a second call is without effect.
\<close>

theorem Register_idempotent:
  "(checks hm endpoint = None \<longrightarrow>
      (\<exists>c. GetStatus (Register hm endpoint) endpoint = Some c \<and>
         Endpoint c = endpoint \<and> Status c = HealthStatusUnknown \<and> Circuit c = CircuitClosed \<and>
         Consecutive c = 0 \<and> Attempts c = 0) \<and>
      (\<forall>other. other \<noteq> endpoint \<longrightarrow>
         GetStatus (Register hm endpoint) other = GetStatus hm other)) \<and>
   (checks hm endpoint \<noteq> None \<longrightarrow> Register hm endpoint = hm) \<and>
   Register (Register hm endpoint) endpoint = Register hm endpoint"
  by (auto simp: Register_def GetStatus_def freshCheck_def split: option.splits)

text \<open>
  Claim C1. Take a registered endpoint and a tick that is not skipped (the circuit is
  not open, or the retry delay has elapsed since the last check). If its probe fails
  and the counter of consecutive failures, incremented, is at the threshold or above,
  then afterwards the circuit is open and the status unhealthy; from there a tick
  before the retry delay has elapsed changes nothing, and a tick after it whose probe
  succeeds leaves the circuit closed, the status healthy and the counter 0. A probe
  that succeeds does so from every state.
\<close>

theorem breaker_opens_and_recovers:
  assumes "checks hm endpoint = Some c"
    and "Circuit c = CircuitOpen \<longrightarrow> retryDelay hm \<le> Since (gateClock tk) (LastCheck c)"
  shows
    "(probe tk \<noteq> None \<and> threshold hm \<le> incr64 (Consecutive c) \<longrightarrow>
        (\<exists>hm' c'. performCheck hm endpoint tk = Inr hm' \<and> checks hm' endpoint = Some c' \<and>
           Consecutive c' = incr64 (Consecutive c) \<and>
           Circuit c' = CircuitOpen \<and> Status c' = HealthStatusUnhealthy \<and>
           (\<forall>tk2. Since (gateClock tk2) (LastCheck c') < retryDelay hm' \<longrightarrow>
              performCheck hm' endpoint tk2 = Inr hm') \<and>
           (\<forall>tk2. retryDelay hm' \<le> Since (gateClock tk2) (LastCheck c') \<and> probe tk2 = None \<longrightarrow>
              (\<exists>hm2 c2. performCheck hm' endpoint tk2 = Inr hm2 \<and>
                 checks hm2 endpoint = Some c2 \<and> Circuit c2 = CircuitClosed \<and>
                 Status c2 = HealthStatusHealthy \<and> Consecutive c2 = 0)))) \<and>
     (probe tk = None \<longrightarrow>
        (\<exists>hm' c'. performCheck hm endpoint tk = Inr hm' \<and> checks hm' endpoint = Some c' \<and>
           Circuit c' = CircuitClosed \<and> Status c' = HealthStatusHealthy \<and> Consecutive c' = 0))"
proof (intro conjI impI)
  assume fail: "probe tk \<noteq> None \<and> threshold hm \<le> incr64 (Consecutive c)"
  from performCheck_probe [OF assms] fail obtain c' where
    pc: "performCheck hm endpoint tk = Inr (hm\<lparr>checks := (checks hm)(endpoint \<mapsto> c')\<rparr>)"
    and c': "Consecutive c' = incr64 (Consecutive c)" "Circuit c' = CircuitOpen"
      "Status c' = HealthStatusUnhealthy"
    by auto
  let ?opened = "hm\<lparr>checks := (checks hm)(endpoint \<mapsto> c')\<rparr>"
  have reg': "checks ?opened endpoint = Some c'" by simp
  have skip: "performCheck ?opened endpoint tk2 = Inr ?opened"
    if "Since (gateClock tk2) (LastCheck c') < retryDelay ?opened" for tk2
    using reg' c'(2) that by (rule performCheck_skip)
  have heal: "\<exists>hm2 c2. performCheck ?opened endpoint tk2 = Inr hm2 \<and>
      checks hm2 endpoint = Some c2 \<and> Circuit c2 = CircuitClosed \<and>
      Status c2 = HealthStatusHealthy \<and> Consecutive c2 = 0"
    if "retryDelay ?opened \<le> Since (gateClock tk2) (LastCheck c') \<and> probe tk2 = None" for tk2
  proof -
    from that have "Circuit c' = CircuitOpen \<longrightarrow>
        retryDelay ?opened \<le> Since (gateClock tk2) (LastCheck c')"
      by simp
    from performCheck_probe [OF reg' this] that obtain c2 where
      "performCheck ?opened endpoint tk2 = Inr (?opened\<lparr>checks := (checks ?opened)(endpoint \<mapsto> c2)\<rparr>)"
      "Circuit c2 = CircuitClosed" "Status c2 = HealthStatusHealthy" "Consecutive c2 = 0"
      by auto
    then show ?thesis by auto
  qed
  show "\<exists>hm' c'. performCheck hm endpoint tk = Inr hm' \<and> checks hm' endpoint = Some c' \<and>
      Consecutive c' = incr64 (Consecutive c) \<and>
      Circuit c' = CircuitOpen \<and> Status c' = HealthStatusUnhealthy \<and>
      (\<forall>tk2. Since (gateClock tk2) (LastCheck c') < retryDelay hm' \<longrightarrow>
         performCheck hm' endpoint tk2 = Inr hm') \<and>
      (\<forall>tk2. retryDelay hm' \<le> Since (gateClock tk2) (LastCheck c') \<and> probe tk2 = None \<longrightarrow>
         (\<exists>hm2 c2. performCheck hm' endpoint tk2 = Inr hm2 \<and>
            checks hm2 endpoint = Some c2 \<and> Circuit c2 = CircuitClosed \<and>
            Status c2 = HealthStatusHealthy \<and> Consecutive c2 = 0))"
    apply (rule exI [of _ ?opened], rule exI [of _ c'])
    using pc reg' c' skip heal by blast
next
  assume ok: "probe tk = None"
  from performCheck_probe [OF assms] ok obtain c' where
    "performCheck hm endpoint tk = Inr (hm\<lparr>checks := (checks hm)(endpoint \<mapsto> c')\<rparr>)"
    "Circuit c' = CircuitClosed" "Status c' = HealthStatusHealthy" "Consecutive c' = 0"
    by auto
  then show "\<exists>hm' c'. performCheck hm endpoint tk = Inr hm' \<and> checks hm' endpoint = Some c' \<and>
      Circuit c' = CircuitClosed \<and> Status c' = HealthStatusHealthy \<and> Consecutive c' = 0"
    by auto
qed


text \<open>
  In a run: from a closed circuit, as many failed probes in a row as are missing to the
  threshold open the circuit.
\<close>

lemma threshold_failures_open:
  assumes "checks hm ep = Some c" and "Circuit c = CircuitClosed"
    and "0 \<le> Consecutive c" and "Consecutive c + int (length tks) = threshold hm"
    and "tks \<noteq> []" and "threshold hm \<le> maxInt64"
    and "\<forall>tk \<in> set tks. probe tk \<noteq> None"
  shows "\<exists>hm' c'. history hm (map (Ticked ep) tks) = Inr hm' \<and> checks hm' ep = Some c' \<and>
      Circuit c' = CircuitOpen \<and> Status c' = HealthStatusUnhealthy \<and>
      Consecutive c' = threshold hm"
  using assms
proof (induction tks arbitrary: hm c)
  case Nil
  then show ?case by simp
next
  case (Cons tk tks)
  have lt: "Consecutive c < maxInt64"
    using Cons.prems(4,6) by simp
  then have inc: "incr64 (Consecutive c) = Consecutive c + 1"
    by (simp add: incr64_def)
  have "Circuit c = CircuitOpen \<longrightarrow> retryDelay hm \<le> Since (gateClock tk) (LastCheck c)"
    using Cons.prems(2) by simp
  from performCheck_probe [OF Cons.prems(1) this] obtain c1 where
    all: "performCheck hm ep tk = Inr (hm\<lparr>checks := (checks hm)(ep \<mapsto> c1)\<rparr>) \<and>
      LastCheck c1 = stampClock tk \<and>
      (probe tk = None \<longrightarrow>
         Circuit c1 = CircuitClosed \<and> Status c1 = HealthStatusHealthy \<and> Consecutive c1 = 0) \<and>
      (probe tk \<noteq> None \<longrightarrow>
         Consecutive c1 = incr64 (Consecutive c) \<and>
         (threshold hm \<le> incr64 (Consecutive c) \<longrightarrow>
            Circuit c1 = CircuitOpen \<and> Status c1 = HealthStatusUnhealthy) \<and>
         (\<not> threshold hm \<le> incr64 (Consecutive c) \<longrightarrow>
            Circuit c1 = (if Circuit c = CircuitOpen then CircuitHalfOpen else Circuit c) \<and>
            (0 < incr64 (Consecutive c) \<longrightarrow> Status c1 = HealthStatusDegraded)))" ..
  let ?hm1 = "hm\<lparr>checks := (checks hm)(ep \<mapsto> c1)\<rparr>"
  have pc: "performCheck hm ep tk = Inr ?hm1" using all by simp
  have fail: "probe tk \<noteq> None" using Cons.prems(7) by simp
  have c1: "Consecutive c1 = Consecutive c + 1" using all fail inc by simp
  show ?case
  proof (cases "tks = []")
    case True
    then have "threshold hm \<le> incr64 (Consecutive c)"
      using Cons.prems(4) inc by simp
    with all fail have "Circuit c1 = CircuitOpen \<and> Status c1 = HealthStatusUnhealthy"
      by simp
    moreover have "Consecutive c1 = threshold hm"
      using c1 True Cons.prems(4) by simp
    ultimately show ?thesis using pc True by simp
  next
    case False
    then have "\<not> threshold hm \<le> incr64 (Consecutive c)"
      using Cons.prems(4) inc by (cases tks) simp_all
    with all fail Cons.prems(2) have closed: "Circuit c1 = CircuitClosed" by simp
    have "\<exists>hm' c'. history ?hm1 (map (Ticked ep) tks) = Inr hm' \<and> checks hm' ep = Some c' \<and>
        Circuit c' = CircuitOpen \<and> Status c' = HealthStatusUnhealthy \<and>
        Consecutive c' = threshold ?hm1"
    proof (rule Cons.IH)
      show "checks ?hm1 ep = Some c1" by simp
      show "Circuit c1 = CircuitClosed" by (rule closed)
      show "0 \<le> Consecutive c1" using c1 Cons.prems(3) by simp
      show "Consecutive c1 + int (length tks) = threshold ?hm1"
        using c1 Cons.prems(4) by simp
      show "tks \<noteq> []" by (rule False)
      show "threshold ?hm1 \<le> maxInt64" using Cons.prems(6) by simp
      show "\<forall>tk \<in> set tks. probe tk \<noteq> None" using Cons.prems(7) by simp
    qed
    then show ?thesis using pc by simp
  qed
qed

subsection \<open>The counter at its largest value\<close>






subsection \<open>The claims at the example monitor\<close>

lemmas monitor_eval =
  performCheck_def updateHealth_def updateCircuit_def probe_def checkEndpoint_def Since_def
  incr64_def maxInt64_def minInt64_def Register_def NewHealthMonitor_def freshCheck_def
  GetStatus_def Let_def registry_def failTick_def okTick_def twoStrikes_def degraded_def
  tripped_def

lemma degraded_history:
  "history twoStrikes [Registered registry, Ticked registry (failTick 100000000)] = Inr degraded"
  by (simp add: monitor_eval)


theorem Register_idempotent_witness:
  "checks twoStrikes registry = None \<and>
   GetStatus (Register twoStrikes registry) registry = Some (freshCheck registry) \<and>
   Status (freshCheck registry) = HealthStatusUnknown \<and>
   Circuit (freshCheck registry) = CircuitClosed \<and>
   checks tripped registry \<noteq> None \<and>
   Register tripped registry = tripped \<and>
   Register (Register twoStrikes registry) registry = Register twoStrikes registry"
  using Register_idempotent [of twoStrikes registry] Register_idempotent [of tripped registry]
  by (simp add: monitor_eval)

theorem breaker_opens_and_recovers_witness:
  "checks degraded registry \<noteq> None \<and>
   probe (failTick 200000000) \<noteq> None \<and>
   threshold degraded \<le> incr64 (Consecutive (the (checks degraded registry))) \<and>
   performCheck degraded registry (failTick 200000000) = Inr tripped \<and>
   Circuit (the (checks tripped registry)) = CircuitOpen \<and>
   Status (the (checks tripped registry)) = HealthStatusUnhealthy \<and>
   performCheck tripped registry (okTick 1000000000) = Inr tripped \<and>
   (\<exists>hm2 c2. performCheck tripped registry (okTick 3200000000) = Inr hm2 \<and>
      checks hm2 registry = Some c2 \<and> Circuit c2 = CircuitClosed \<and>
      Status c2 = HealthStatusHealthy \<and> Consecutive c2 = 0)"
proof -
  have reg: "checks degraded registry = Some (the (checks degraded registry))"
    by (simp add: monitor_eval)
  have gate: "Circuit (the (checks degraded registry)) = CircuitOpen \<longrightarrow>
      retryDelay degraded \<le> Since (gateClock (failTick 200000000))
        (LastCheck (the (checks degraded registry)))"
    by (simp add: monitor_eval)
  have fail: "probe (failTick 200000000) \<noteq> None \<and>
      threshold degraded \<le> incr64 (Consecutive (the (checks degraded registry)))"
    by (simp add: monitor_eval)
  have step: "performCheck degraded registry (failTick 200000000) = Inr tripped"
    by (simp add: monitor_eval)
  from breaker_opens_and_recovers [OF reg gate, THEN conjunct1, rule_format, OF fail] step
  obtain c' where c': "checks tripped registry = Some c'" "Circuit c' = CircuitOpen"
      "Status c' = HealthStatusUnhealthy"
    and skip: "\<forall>tk2. Since (gateClock tk2) (LastCheck c') < retryDelay tripped \<longrightarrow>
        performCheck tripped registry tk2 = Inr tripped"
    and heal: "\<forall>tk2. retryDelay tripped \<le> Since (gateClock tk2) (LastCheck c') \<and>
        probe tk2 = None \<longrightarrow>
        (\<exists>hm2 c2. performCheck tripped registry tk2 = Inr hm2 \<and>
           checks hm2 registry = Some c2 \<and> Circuit c2 = CircuitClosed \<and>
           Status c2 = HealthStatusHealthy \<and> Consecutive c2 = 0)"
    by auto
  have last: "LastCheck c' = 200000000"
    using c'(1) by (simp add: monitor_eval) auto
  have "Since (gateClock (okTick 1000000000)) (LastCheck c') < retryDelay tripped"
    by (simp add: last) (simp add: monitor_eval)
  with skip have s: "performCheck tripped registry (okTick 1000000000) = Inr tripped"
    by blast
  have "retryDelay tripped \<le> Since (gateClock (okTick 3200000000)) (LastCheck c') \<and>
      probe (okTick 3200000000) = None"
    by (simp add: last) (simp add: monitor_eval)
  with heal have h: "\<exists>hm2 c2. performCheck tripped registry (okTick 3200000000) = Inr hm2 \<and>
      checks hm2 registry = Some c2 \<and> Circuit c2 = CircuitClosed \<and>
      Status c2 = HealthStatusHealthy \<and> Consecutive c2 = 0"
    by blast
  from c' have "Circuit (the (checks tripped registry)) = CircuitOpen"
    "Status (the (checks tripped registry)) = HealthStatusUnhealthy"
    by simp_all
  moreover have "checks degraded registry \<noteq> None"
    by (simp add: monitor_eval)
  ultimately show ?thesis using fail step s h by blast
qed


end
